theory Spec2Isabelle
  imports Main "HOL-Library.Word"
begin

unbundle bit_operations_syntax

section \<open>Data model\<close>

text \<open>
  The functions of \<^verbatim>\<open>hinlines.h\<close> that coordinate the CPU threads work on the global
  \<^verbatim>\<open>sysblk\<close> and on \<^verbatim>\<open>REGS\<close> structures reached through pointers. The declarations of
  both structures live outside this file, so only the fields the functions touch are
  modelled. A \<^verbatim>\<open>REGS*\<close> is an address; address \<open>0\<close> is \<^verbatim>\<open>NULL\<close>. \<^verbatim>\<open>CPU_BITMAP\<close> is an
  unsigned integer whose width depends on the build, so the width \<open>'w\<close> stays a
  parameter (the records take the bitmap type, instantiated with \<open>'w word\<close>).

  Modelled from the spec: the types \<^verbatim>\<open>TOD\<close> of \<^verbatim>\<open>waittod\<close>, of \<^verbatim>\<open>waittime\<close> and of
  \<^verbatim>\<open>cpuad\<close> are declared outside this file. \<^verbatim>\<open>waittod\<close> is a timestamp with \<open>0\<close> for
  "not waiting" and \<^verbatim>\<open>waittime\<close> a counter, both taken as unsigned 64-bit values;
  \<^verbatim>\<open>cpuad\<close> is the small index of the processor, taken as a natural number.
\<close>

type_synonym regs_ptr = nat
type_synonym TOD = "64 word"
type_synonym U64 = "64 word"

record 'bitmap REGS =
  cpuad :: nat
  cpubit :: 'bitmap
  hostregs :: regs_ptr
  guestregs :: regs_ptr
  intwait :: bool
  waittod :: TOD
  waittime :: U64

text \<open>
  Modelled from the spec: the values \<^verbatim>\<open>LOCK_OWNER_NONE\<close> and \<^verbatim>\<open>LOCK_OWNER_OTHER\<close> are
  declared outside this file; the owner of the interrupt lock is one of
  none, a non-processor actor, or a processor id.
\<close>

datatype lock_owner = LOCK_OWNER_NONE | LOCK_OWNER_OTHER | LOCK_OWNER_CPU nat

record 'bitmap SYSBLK =
  started_mask :: 'bitmap
  waiting_mask :: 'bitmap
  sync_mask :: 'bitmap
  syncing :: bool
  intowner :: lock_owner
  hicpu :: int
  regs :: "nat \<Rightarrow> regs_ptr"

record 'bitmap machine =
  sysblk :: "'bitmap SYSBLK"
  storage :: "regs_ptr \<rightharpoonup> 'bitmap REGS"

text \<open>Dereferencing \<^verbatim>\<open>NULL\<close> or an address that holds no \<^verbatim>\<open>REGS\<close> is a fault.\<close>

datatype fault = Invalid_pointer

definition deref :: "'b machine \<Rightarrow> regs_ptr \<Rightarrow> fault + 'b REGS" where
  "deref m p =
     (if p = 0 then Inl Invalid_pointer
      else case storage m p of None \<Rightarrow> Inl Invalid_pointer | Some r \<Rightarrow> Inr r)"

text \<open>
  The threading primitives (\<^verbatim>\<open>obtain_lock\<close>, \<^verbatim>\<open>wait_condition\<close>, \<^verbatim>\<open>signal_condition\<close>,
  ...) are calls into the host's thread library. A call is recorded as an event, in
  program order.
\<close>

datatype cond = Intcond regs_ptr | Sync_cond | Sync_bc_cond

datatype event =
    Signal_condition cond
  | Broadcast_condition cond
  | Wait_condition cond
  | Obtain_lock
  | Release_lock
  | On_ic_interrupt regs_ptr

section \<open>Waking processors\<close>

text \<open>\<^verbatim>\<open>wakeup_cpu\<close>: signal the private condition of one processor.\<close>

definition wakeup_cpu :: "regs_ptr \<Rightarrow> 'b machine \<Rightarrow> fault + ('b machine \<times> event list)" where
  "wakeup_cpu p m =
     (case deref m p of
        Inl e \<Rightarrow> Inl e
      | Inr r \<Rightarrow> Inr (m, [Signal_condition (Intcond p)]))"

text \<open>
  The test of \<^verbatim>\<open>wakeup_cpu_mask\<close> that decides whether the current candidate replaces
  the selection (\<^verbatim>\<open>lru_regs\<close>, \<^verbatim>\<open>lru_waittod\<close>). \<open>None\<close> stands for \<^verbatim>\<open>lru_regs == NULL\<close>.
  The operators short-circuit as in C: \<^verbatim>\<open>lru_regs->waittime\<close> is read only when the
  two wait times of day are equal.
\<close>

definition lru_replaces ::
  "'b machine \<Rightarrow> 'b REGS \<Rightarrow> (regs_ptr \<times> TOD) option \<Rightarrow> fault + bool" where
  "lru_replaces m current lru =
     (case lru of
        None \<Rightarrow> Inr True
      | Some (lru_regs, lru_waittod) \<Rightarrow>
          if 0 < waittod current then
            if waittod current < lru_waittod then Inr True
            else if waittod current = lru_waittod then
              (case deref m lru_regs of
                 Inl e \<Rightarrow> Inl e
               | Inr l \<Rightarrow> Inr (waittime l \<le> waittime current))
            else Inr False
          else Inr False)"

text \<open>The loop \<^verbatim>\<open>for (i=0; mask; mask >>= 1, ++i)\<close> of \<^verbatim>\<open>wakeup_cpu_mask\<close>.\<close>

function wakeup_cpu_mask_loop ::
  "'w word machine \<Rightarrow> 'w::len word \<Rightarrow> nat \<Rightarrow> (regs_ptr \<times> TOD) option
     \<Rightarrow> fault + (regs_ptr \<times> TOD) option" where
  "wakeup_cpu_mask_loop m msk i lru =
     (if msk = 0 then Inr lru
      else if msk AND 1 \<noteq> 0 then
        (let current_regs = regs (sysblk m) i in
         case deref m current_regs of
           Inl e \<Rightarrow> Inl e
         | Inr current \<Rightarrow>
             (case lru_replaces m current lru of
                Inl e \<Rightarrow> Inl e
              | Inr True \<Rightarrow>
                  wakeup_cpu_mask_loop m (drop_bit 1 msk) (i + 1)
                    (Some (current_regs, waittod current))
              | Inr False \<Rightarrow> wakeup_cpu_mask_loop m (drop_bit 1 msk) (i + 1) lru))
      else wakeup_cpu_mask_loop m (drop_bit 1 msk) (i + 1) lru)"
  by pat_completeness auto
termination
proof (relation "measure (\<lambda>(m, msk, i, lru). unat msk)", goal_cases)
  have shift: "unat (drop_bit 1 w) < unat w" if "w \<noteq> 0" for w :: "'z::len word"
  proof -
    have "0 < unat w"
      using that by (simp add: unat_gt_0)
    moreover have "unat (drop_bit 1 w) = drop_bit 1 (unat w)"
      by (rule unat_drop_bit_eq)
    moreover have "drop_bit 1 (unat w) = unat w div 2"
      by (simp add: drop_bit_Suc)
    ultimately show ?thesis
      by simp
  qed
  {
    case 1
    show ?case by simp
  next
    case 2
    then show ?case by (simp only: in_measure prod.case) (rule shift)
  next
    case 3
    then show ?case by (simp only: in_measure prod.case) (rule shift)
  next
    case 4
    then show ?case by (simp only: in_measure prod.case) (rule shift)
  }
qed

text \<open>\<^verbatim>\<open>wakeup_cpu_mask\<close>: wake the least recently used processor of the mask.\<close>

definition wakeup_cpu_mask :: "'w::len word \<Rightarrow> 'w word machine \<Rightarrow> fault + ('w word machine \<times> event list)" where
  "wakeup_cpu_mask msk m =
     (if msk \<noteq> 0 then
        (case wakeup_cpu_mask_loop m msk 0 None of
           Inl e \<Rightarrow> Inl e
         | Inr None \<Rightarrow> wakeup_cpu 0 m
         | Inr (Some (lru_regs, lru_waittod)) \<Rightarrow> wakeup_cpu lru_regs m)
      else Inr (m, []))"

text \<open>\<^verbatim>\<open>wakeup_cpus_mask\<close>: wake every processor of the mask.\<close>

function wakeup_cpus_mask_loop ::
  "'w::len word \<Rightarrow> nat \<Rightarrow> 'w word machine \<Rightarrow> event list
     \<Rightarrow> fault + ('w word machine \<times> event list)" where
  "wakeup_cpus_mask_loop msk i m evs =
     (if msk = 0 then Inr (m, evs)
      else if msk AND 1 \<noteq> 0 then
        (case wakeup_cpu (regs (sysblk m) i) m of
           Inl e \<Rightarrow> Inl e
         | Inr (m', ev) \<Rightarrow> wakeup_cpus_mask_loop (drop_bit 1 msk) (i + 1) m' (evs @ ev))
      else wakeup_cpus_mask_loop (drop_bit 1 msk) (i + 1) m evs)"
  by pat_completeness auto
termination
proof (relation "measure (\<lambda>(msk, i, m, evs). unat msk)", goal_cases)
  have shift: "unat (drop_bit 1 w) < unat w" if "w \<noteq> 0" for w :: "'z::len word"
  proof -
    have "0 < unat w"
      using that by (simp add: unat_gt_0)
    moreover have "unat (drop_bit 1 w) = drop_bit 1 (unat w)"
      by (rule unat_drop_bit_eq)
    moreover have "drop_bit 1 (unat w) = unat w div 2"
      by (simp add: drop_bit_Suc)
    ultimately show ?thesis
      by simp
  qed
  {
    case 1
    show ?case by simp
  next
    case 2
    then show ?case by (simp only: in_measure prod.case) (rule shift)
  next
    case 3
    then show ?case by (simp only: in_measure prod.case) (rule shift)
  }
qed

definition wakeup_cpus_mask :: "'w::len word \<Rightarrow> 'w word machine \<Rightarrow> fault + ('w word machine \<times> event list)" where
  "wakeup_cpus_mask msk m = wakeup_cpus_mask_loop msk 0 m []"

declare wakeup_cpu_mask_loop.simps [simp del] wakeup_cpus_mask_loop.simps [simp del]

section \<open>Synchronizing processors\<close>

text \<open>
  A function that calls \<^verbatim>\<open>wait_condition\<close> or \<^verbatim>\<open>obtain_lock\<close> gives the processor away
  until the call returns; the other threads change the shared state meanwhile. Each
  such function is therefore modelled in pieces: one piece runs from an entry point to
  the next blocking call (\<open>Blocked\<close>, the blocking call being the last event) or to the
  end of the function (\<open>Returned\<close>), and the piece that follows starts from the machine as
  it is when the blocking call returns.
\<close>

datatype status = Blocked | Returned

text \<open>
  The macros \<^verbatim>\<open>CPU_BIT\<close>, \<^verbatim>\<open>AT_SYNCPOINT\<close>, \<^verbatim>\<open>SIE_MODE\<close> and \<^verbatim>\<open>ON_IC_INTERRUPT\<close> are defined
  outside this file. \<^verbatim>\<open>CPU_BIT(i)\<close> is the mask with bit \<open>i\<close> alone. \<^verbatim>\<open>AT_SYNCPOINT\<close> and
  \<^verbatim>\<open>SIE_MODE\<close> read the \<^verbatim>\<open>REGS\<close> they are given and are parameters of the model.
  Modelled from the spec: \<^verbatim>\<open>ON_IC_INTERRUPT\<close> is the operation of the processor loop that
  marks a pending-interrupt condition on a processor; it is recorded as an event on
  the \<^verbatim>\<open>REGS\<close> it is applied to.
\<close>

definition CPU_BIT :: "nat \<Rightarrow> 'w::len word" where
  "CPU_BIT i = push_bit i 1"

definition ON_IC_INTERRUPT :: "regs_ptr \<Rightarrow> 'b machine \<Rightarrow> fault + event list" where
  "ON_IC_INTERRUPT p m =
     (case deref m p of Inl e \<Rightarrow> Inl e | Inr r \<Rightarrow> Inr [On_ic_interrupt p])"

text \<open>The loop \<^verbatim>\<open>for (i=0; mask && i < sysblk.hicpu; ++i)\<close> of \<^verbatim>\<open>synchronize_cpus\<close>.\<close>

function synchronize_cpus_loop ::
  "('w word REGS \<Rightarrow> bool) \<Rightarrow> ('w word REGS \<Rightarrow> bool) \<Rightarrow> 'w word machine
     \<Rightarrow> 'w::len word \<Rightarrow> nat \<Rightarrow> nat \<Rightarrow> event list \<Rightarrow> fault + ('w word \<times> nat \<times> event list)" where
  "synchronize_cpus_loop AT_SYNCPOINT SIE_MODE m msk i n evs =
     (if msk \<noteq> 0 \<and> int i < hicpu (sysblk m) then
        (let i_regs = regs (sysblk m) i in
         if msk AND CPU_BIT i \<noteq> 0 then
           (case deref m i_regs of
              Inl e \<Rightarrow> Inl e
            | Inr r \<Rightarrow>
                if AT_SYNCPOINT r then
                  synchronize_cpus_loop AT_SYNCPOINT SIE_MODE m (msk XOR CPU_BIT i) (i + 1) n evs
                else
                  (case ON_IC_INTERRUPT i_regs m of
                     Inl e \<Rightarrow> Inl e
                   | Inr ev \<Rightarrow>
                       if SIE_MODE r then
                         (case ON_IC_INTERRUPT (guestregs r) m of
                            Inl e \<Rightarrow> Inl e
                          | Inr ev' \<Rightarrow>
                              synchronize_cpus_loop AT_SYNCPOINT SIE_MODE m msk (i + 1) (n + 1)
                                (evs @ ev @ ev'))
                       else
                         synchronize_cpus_loop AT_SYNCPOINT SIE_MODE m msk (i + 1) (n + 1)
                           (evs @ ev)))
         else synchronize_cpus_loop AT_SYNCPOINT SIE_MODE m msk (i + 1) n evs)
      else Inr (msk, n, evs))"
  by pat_completeness auto
termination
  by (relation "measure (\<lambda>(a, s, m, msk, i, n, evs). nat (hicpu (sysblk m) - int i))") auto

declare synchronize_cpus_loop.simps [simp del]

text \<open>
  \<^verbatim>\<open>synchronize_cpus\<close>, from the call to its return or to \<^verbatim>\<open>wait_condition\<close> on
  \<^verbatim>\<open>sync_cond\<close>. The caller holds the interrupt lock.
\<close>

definition synchronize_cpus ::
  "('w word REGS \<Rightarrow> bool) \<Rightarrow> ('w word REGS \<Rightarrow> bool) \<Rightarrow> regs_ptr \<Rightarrow> 'w::len word machine
     \<Rightarrow> fault + (status \<times> 'w word machine \<times> event list)" where
  "synchronize_cpus AT_SYNCPOINT SIE_MODE rp m =
     (case deref m rp of
        Inl e \<Rightarrow> Inl e
      | Inr r \<Rightarrow>
     (case deref m (hostregs r) of
        Inl e \<Rightarrow> Inl e
      | Inr h \<Rightarrow>
     (let msk = started_mask (sysblk m) AND NOT (waiting_mask (sysblk m) OR cpubit h) in
      case synchronize_cpus_loop AT_SYNCPOINT SIE_MODE m msk 0 0 [] of
        Inl e \<Rightarrow> Inl e
      | Inr (msk', n, evs) \<Rightarrow>
          if n \<noteq> 0 \<and> msk' \<noteq> 0 then
            Inr (Blocked,
                 m\<lparr>sysblk := (sysblk m)\<lparr>sync_mask := msk', syncing := True,
                                         intowner := LOCK_OWNER_NONE\<rparr>\<rparr>,
                 evs @ [Wait_condition Sync_cond])
          else Inr (Returned, m, evs))))"

text \<open>\<^verbatim>\<open>synchronize_cpus\<close>, from the return of \<^verbatim>\<open>wait_condition\<close> to the end.\<close>

definition synchronize_cpus_wake ::
  "regs_ptr \<Rightarrow> 'b machine \<Rightarrow> fault + (status \<times> 'b machine \<times> event list)" where
  "synchronize_cpus_wake rp m =
     (case deref m rp of
        Inl e \<Rightarrow> Inl e
      | Inr r \<Rightarrow>
     (case deref m (hostregs r) of
        Inl e \<Rightarrow> Inl e
      | Inr h \<Rightarrow>
          Inr (Returned,
               m\<lparr>sysblk := (sysblk m)\<lparr>intowner := LOCK_OWNER_CPU (cpuad h), syncing := False\<rparr>\<rparr>,
               [Broadcast_condition Sync_bc_cond])))"

section \<open>The interrupt lock\<close>

text \<open>
  \<^verbatim>\<open>Obtain_Interrupt_Lock\<close>, from the call to \<^verbatim>\<open>obtain_lock\<close>. This piece runs without the
  lock. The argument \<open>0\<close> (\<^verbatim>\<open>NULL\<close>) is a thread that is no processor.
\<close>

definition Obtain_Interrupt_Lock ::
  "regs_ptr \<Rightarrow> 'b machine \<Rightarrow> fault + (status \<times> 'b machine \<times> event list)" where
  "Obtain_Interrupt_Lock rp m =
     (if rp \<noteq> 0 then
        (case deref m rp of
           Inl e \<Rightarrow> Inl e
         | Inr r \<Rightarrow>
        (case deref m (hostregs r) of
           Inl e \<Rightarrow> Inl e
         | Inr h \<Rightarrow>
             Inr (Blocked,
                  m\<lparr>storage := (storage m)(hostregs r \<mapsto> h\<lparr>intwait := True\<rparr>)\<rparr>,
                  [Obtain_lock])))
      else Inr (Blocked, m, [Obtain_lock]))"

text \<open>
  \<^verbatim>\<open>Obtain_Interrupt_Lock\<close>, from the return of \<^verbatim>\<open>obtain_lock\<close>, or of \<^verbatim>\<open>wait_condition\<close>
  on \<^verbatim>\<open>sync_bc_cond\<close> (the test of the \<^verbatim>\<open>while\<close> loop comes next in both cases), to the
  next \<^verbatim>\<open>wait_condition\<close> or to the end.
\<close>

definition Obtain_Interrupt_Lock_locked ::
  "regs_ptr \<Rightarrow> 'w::len word machine \<Rightarrow> fault + (status \<times> 'w word machine \<times> event list)" where
  "Obtain_Interrupt_Lock_locked rp m =
     (if rp \<noteq> 0 then
        (case deref m rp of
           Inl e \<Rightarrow> Inl e
         | Inr r \<Rightarrow>
        (case deref m (hostregs r) of
           Inl e \<Rightarrow> Inl e
         | Inr h \<Rightarrow>
             if syncing (sysblk m) then
               (let sync_mask' = sync_mask (sysblk m) AND NOT (cpubit h) in
                Inr (Blocked,
                     m\<lparr>sysblk := (sysblk m)\<lparr>sync_mask := sync_mask'\<rparr>\<rparr>,
                     (if sync_mask' = 0 then [Signal_condition Sync_cond] else [])
                       @ [Wait_condition Sync_bc_cond]))
             else
               Inr (Returned,
                    m\<lparr>storage := (storage m)(hostregs r \<mapsto> h\<lparr>intwait := False\<rparr>),
                      sysblk := (sysblk m)\<lparr>intowner := LOCK_OWNER_CPU (cpuad h)\<rparr>\<rparr>,
                    [])))
      else Inr (Returned, m\<lparr>sysblk := (sysblk m)\<lparr>intowner := LOCK_OWNER_OTHER\<rparr>\<rparr>, []))"

text \<open>\<^verbatim>\<open>Release_Interrupt_Lock\<close>; its argument is not used.\<close>

definition Release_Interrupt_Lock ::
  "regs_ptr \<Rightarrow> 'b machine \<Rightarrow> fault + (status \<times> 'b machine \<times> event list)" where
  "Release_Interrupt_Lock rp m =
     Inr (Returned, m\<lparr>sysblk := (sysblk m)\<lparr>intowner := LOCK_OWNER_NONE\<rparr>\<rparr>, [Release_lock])"

section \<open>Notions used in the statements\<close>

text \<open>The processors of a mask, in ascending order: the order in which the loops visit them.\<close>

definition cpu_list :: "'w::len word \<Rightarrow> nat list" where
  "cpu_list msk = filter (bit msk) [0..<LENGTH('w)]"

text \<open>The \<^verbatim>\<open>REGS\<close> of processor \<open>i\<close>, reached through \<^verbatim>\<open>sysblk.regs[i]\<close>, when there is one.\<close>

definition cpu_regs :: "'b machine \<Rightarrow> nat \<Rightarrow> 'b REGS option" where
  "cpu_regs m i = (case deref m (regs (sysblk m) i) of Inl e \<Rightarrow> None | Inr r \<Rightarrow> Some r)"

text \<open>
  The body of the loop of \<^verbatim>\<open>wakeup_cpu_mask\<close>, run over a list of processors. The loop
  over a mask is this scan over the processors of the mask.
\<close>

fun lru_scan ::
  "'b machine \<Rightarrow> nat list \<Rightarrow> (regs_ptr \<times> TOD) option \<Rightarrow> fault + (regs_ptr \<times> TOD) option" where
  "lru_scan m [] lru = Inr lru"
| "lru_scan m (i # js) lru =
     (case deref m (regs (sysblk m) i) of
        Inl e \<Rightarrow> Inl e
      | Inr current \<Rightarrow>
          (case lru_replaces m current lru of
             Inl e \<Rightarrow> Inl e
           | Inr True \<Rightarrow> lru_scan m js (Some (regs (sysblk m) i, waittod current))
           | Inr False \<Rightarrow> lru_scan m js lru))"

text \<open>
  Processor \<open>k\<close> of the set \<open>C\<close> is the least recently used one: it has the smallest
  nonzero \<^verbatim>\<open>waittod\<close>; among those, the largest \<^verbatim>\<open>waittime\<close>; among those, the highest
  number.
\<close>

definition lru_choice :: "(nat \<Rightarrow> 'b REGS) \<Rightarrow> nat set \<Rightarrow> nat \<Rightarrow> bool" where
  "lru_choice R C k \<longleftrightarrow>
     k \<in> C \<and> waittod (R k) \<noteq> 0 \<and>
     (\<forall>j\<in>C. waittod (R j) \<noteq> 0 \<longrightarrow>
        waittod (R k) \<le> waittod (R j) \<and>
        (waittod (R j) = waittod (R k) \<longrightarrow>
           waittime (R j) \<le> waittime (R k) \<and>
           (waittime (R j) = waittime (R k) \<longrightarrow> j \<le> k)))"

text \<open>
  A machine for examples: processor \<open>i\<close> is registered at address \<open>i + 1\<close> with the
  \<^verbatim>\<open>waittod\<close> and \<^verbatim>\<open>waittime\<close> of entry \<open>i\<close> of the list, and there are no other
  processors.
\<close>

definition lru_cpu :: "(TOD \<times> U64) list \<Rightarrow> nat \<Rightarrow> 'w::len word REGS" where
  "lru_cpu ws i =
     \<lparr>cpuad = i, cpubit = CPU_BIT i, hostregs = i + 1, guestregs = 0, intwait = False,
      waittod = fst (ws ! i), waittime = snd (ws ! i)\<rparr>"

definition lru_machine :: "(TOD \<times> U64) list \<Rightarrow> 'w::len word machine" where
  "lru_machine ws =
     \<lparr>sysblk =
        \<lparr>started_mask = 0, waiting_mask = 0, sync_mask = 0, syncing = False,
         intowner = LOCK_OWNER_NONE, hicpu = int (length ws),
         regs = (\<lambda>i. if i < length ws then i + 1 else 0)\<rparr>,
      storage = (\<lambda>p. if 0 < p \<and> p \<le> length ws then Some (lru_cpu ws (p - 1)) else None)\<rparr>"

text \<open>
  The pending-interrupt marks that \<^verbatim>\<open>synchronize_cpus\<close> puts on processor \<open>j\<close>: on its
  \<^verbatim>\<open>REGS\<close> and, in SIE mode, on its guest's.
\<close>

definition ic_marks ::
  "'b machine \<Rightarrow> ('b REGS \<Rightarrow> bool) \<Rightarrow> (nat \<Rightarrow> 'b REGS) \<Rightarrow> nat \<Rightarrow> event list" where
  "ic_marks m SIE_MODE R j =
     On_ic_interrupt (regs (sysblk m) j)
       # (if SIE_MODE (R j) then [On_ic_interrupt (guestregs (R j))] else [])"

text \<open>
  A machine for examples of synchronization: processor \<open>i\<close> is registered at address
  \<open>i + 1\<close>; entry \<open>i\<close> of the list gives its \<^verbatim>\<open>intwait\<close> flag and says whether it
  runs a guest, whose \<^verbatim>\<open>REGS\<close> are then at address \<open>101 + i\<close>.
\<close>

definition sync_cpu :: "(bool \<times> bool) list \<Rightarrow> nat \<Rightarrow> 'w::len word REGS" where
  "sync_cpu fs i =
     \<lparr>cpuad = i, cpubit = CPU_BIT i, hostregs = i + 1,
      guestregs = (if snd (fs ! i) then 101 + i else 0), intwait = fst (fs ! i),
      waittod = 0, waittime = 0\<rparr>"

definition sync_guest :: "nat \<Rightarrow> 'w::len word REGS" where
  "sync_guest i =
     \<lparr>cpuad = i, cpubit = CPU_BIT i, hostregs = i + 1, guestregs = 0, intwait = False,
      waittod = 0, waittime = 0\<rparr>"

definition sync_machine ::
  "'w::len word \<Rightarrow> 'w word \<Rightarrow> 'w word \<Rightarrow> bool \<Rightarrow> lock_owner \<Rightarrow> (bool \<times> bool) list
     \<Rightarrow> 'w word machine" where
  "sync_machine started waiting pending active owner fs =
     \<lparr>sysblk =
        \<lparr>started_mask = started, waiting_mask = waiting, sync_mask = pending,
         syncing = active, intowner = owner, hicpu = int (length fs),
         regs = (\<lambda>i. if i < length fs then i + 1 else 0)\<rparr>,
      storage = (\<lambda>p. if 0 < p \<and> p \<le> length fs then Some (sync_cpu fs (p - 1))
                       else if 100 < p \<and> p \<le> 100 + length fs \<and> snd (fs ! (p - 101))
                         then Some (sync_guest (p - 101))
                       else None)\<rparr>"

text \<open>
  The invariant of the synchronization state: \<^verbatim>\<open>sync_mask\<close> is empty unless \<^verbatim>\<open>syncing\<close>
  is set.
\<close>

definition sync_invariant :: "'w::len word machine \<Rightarrow> bool" where
  "sync_invariant m \<longleftrightarrow> syncing (sysblk m) \<or> sync_mask (sysblk m) = 0"

section \<open>Masks as lists of processors\<close>

lemma cpu_list_zero: "cpu_list (0 :: 'w::len word) = []"
  by (simp add: cpu_list_def)

lemma and_1_bit0: "(msk :: 'w::len word) AND 1 \<noteq> 0 \<longleftrightarrow> bit msk 0"
  by (simp add: and_one_eq bit_0 mod_2_eq_odd)

lemma cpu_list_shift:
  "cpu_list (msk :: 'w::len word) =
     (if bit msk 0 then [0] else []) @ map Suc (cpu_list (drop_bit 1 msk))"
proof -
  obtain n where n: "LENGTH('w) = Suc n"
    by (cases "LENGTH('w)") simp_all
  have top: "\<not> bit (drop_bit 1 msk) n"
    using n by (auto simp: bit_drop_bit_eq dest: bit_imp_le_length)
  have "filter (bit msk) [0..<Suc n] =
          (if bit msk 0 then [0] else []) @ filter (bit msk) (map Suc [0..<n])"
    by (simp only: upt_conv_Cons [of 0 "Suc n"] map_Suc_upt [symmetric]) simp
  also have "filter (bit msk) (map Suc [0..<n]) = map Suc (filter (bit (drop_bit 1 msk)) [0..<n])"
    by (simp add: filter_map comp_def bit_drop_bit_eq)
  also have "filter (bit (drop_bit 1 msk)) [0..<n] = filter (bit (drop_bit 1 msk)) [0..<Suc n]"
    using top by simp
  finally show ?thesis
    by (simp add: cpu_list_def n)
qed

lemma set_cpu_list: "set (cpu_list msk) = {i. bit msk i}"
  by (auto simp: cpu_list_def dest: bit_imp_le_length)

lemma length_cpu_list: "length (cpu_list msk) = card {i. bit msk i}"
  by (metis set_cpu_list distinct_card cpu_list_def distinct_filter distinct_upt)


lemma cpu_regs_deref: "cpu_regs m i = Some r \<longleftrightarrow> deref m (regs (sysblk m) i) = Inr r"
  by (simp add: cpu_regs_def split: sum.splits)

lemma wakeup_cpu_registered:
  "cpu_regs m i = Some r \<Longrightarrow>
   wakeup_cpu (regs (sysblk m) i) m = Inr (m, [Signal_condition (Intcond (regs (sysblk m) i))])"
  by (simp add: cpu_regs_deref wakeup_cpu_def)

section \<open>The scan for the least recently used processor\<close>

lemma wakeup_cpu_mask_loop_scan:
  "wakeup_cpu_mask_loop m msk i lru = lru_scan m (map (\<lambda>j. i + j) (cpu_list msk)) lru"
proof (induction m msk i lru rule: wakeup_cpu_mask_loop.induct)
  case (1 m msk i lru)
  show ?case
  proof (cases "msk = 0")
    case True
    then show ?thesis
      by (subst wakeup_cpu_mask_loop.simps) (simp add: cpu_list_zero)
  next
    case False
    have shift: "map (\<lambda>j. i + j) (map Suc (cpu_list (drop_bit 1 msk)))
                   = map (\<lambda>j. i + 1 + j) (cpu_list (drop_bit 1 msk))"
      by simp
    show ?thesis
    proof (cases "bit msk 0")
      case True
      have cl: "cpu_list msk = 0 # map Suc (cpu_list (drop_bit 1 msk))"
        using True cpu_list_shift [of msk] by simp
      show ?thesis
        using False True "1.IH"(1,2)
        by (subst wakeup_cpu_mask_loop.simps)
           (auto simp: cl and_1_bit0 comp_def Let_def split: sum.splits bool.splits)
    next
      case nb: False
      have cl: "cpu_list msk = map Suc (cpu_list (drop_bit 1 msk))"
        using nb cpu_list_shift [of msk] by simp
      show ?thesis
        using False nb "1.IH"(3)
        by (subst wakeup_cpu_mask_loop.simps) (simp add: cl and_1_bit0 comp_def)
    qed
  qed
qed


lemma lru_replaces_zero_seed:
  "lru_replaces m current (Some (p, 0)) = Inr False"
  by (simp add: lru_replaces_def word_gt_0)

lemma lru_scan_zero_seed:
  "\<forall>j\<in>set js. cpu_regs m j \<noteq> None \<Longrightarrow> lru_scan m js (Some (p, 0)) = Inr (Some (p, 0))"
  by (induction js) (auto simp: cpu_regs_deref lru_replaces_zero_seed)

lemma lru_replaces_registered:
  "cpu_regs m k = Some l \<Longrightarrow>
   lru_replaces m current (Some (regs (sysblk m) k, t)) =
     Inr (waittod current \<noteq> 0 \<and>
          (waittod current < t \<or> (waittod current = t \<and> waittime l \<le> waittime current)))"
  by (auto simp: lru_replaces_def cpu_regs_deref word_gt_0)

lemma lru_scan_selects:
  assumes "\<forall>j\<in>insert k (set js). cpu_regs m j = Some (R j)"
    and "sorted_wrt (<) (k # js)"
    and "waittod (R k) \<noteq> 0"
  shows "\<exists>k'. lru_choice R (insert k (set js)) k' \<and>
           lru_scan m js (Some (regs (sysblk m) k, waittod (R k)))
             = Inr (Some (regs (sysblk m) k', waittod (R k')))"
  using assms
proof (induction js arbitrary: k)
  case Nil
  then show ?case
    by (auto simp: lru_choice_def)
next
  case (Cons j js)
  have rk: "cpu_regs m k = Some (R k)" and rj: "cpu_regs m j = Some (R j)"
    using Cons.prems(1) by auto
  have kj: "k < j" and js_above: "\<forall>i\<in>set js. j < i" and sorted_js: "sorted_wrt (<) js"
    using Cons.prems(2) by auto
  let ?replace = "waittod (R j) \<noteq> 0 \<and>
      (waittod (R j) < waittod (R k) \<or>
       (waittod (R j) = waittod (R k) \<and> waittime (R k) \<le> waittime (R j)))"
  have dj: "deref m (regs (sysblk m) j) = Inr (R j)"
    using rj by (simp add: cpu_regs_deref)
  show ?case
  proof (cases ?replace)
    case True
    have "\<exists>k'. lru_choice R (insert j (set js)) k' \<and>
           lru_scan m js (Some (regs (sysblk m) j, waittod (R j)))
             = Inr (Some (regs (sysblk m) k', waittod (R k')))"
      using Cons.prems(1) js_above sorted_js True
      by (intro Cons.IH) auto
    then obtain k' where c: "lru_choice R (insert j (set js)) k'"
      and s: "lru_scan m js (Some (regs (sysblk m) j, waittod (R j)))
                = Inr (Some (regs (sysblk m) k', waittod (R k')))"
      by blast
    have jk': "j \<le> k'"
      using c js_above by (auto simp: lru_choice_def)
    have cj: "waittod (R k') \<le> waittod (R j)"
      and cj': "waittod (R j) = waittod (R k') \<longrightarrow> waittime (R j) \<le> waittime (R k')"
      using c True by (auto simp: lru_choice_def)
    have "lru_choice R (insert k (set (j # js))) k'"
      unfolding lru_choice_def
    proof (intro conjI ballI impI)
      show "k' \<in> insert k (set (j # js))"
        using c by (auto simp: lru_choice_def)
      show "waittod (R k') \<noteq> 0"
        using c by (simp add: lru_choice_def)
    next
      fix i assume i: "i \<in> insert k (set (j # js))" and nz: "waittod (R i) \<noteq> 0"
      show "waittod (R k') \<le> waittod (R i)"
        using i nz c True cj by (auto simp: lru_choice_def)
    next
      fix i assume i: "i \<in> insert k (set (j # js))" and nz: "waittod (R i) \<noteq> 0"
        and eq: "waittod (R i) = waittod (R k')"
      show "waittime (R i) \<le> waittime (R k')"
        using i nz eq c True cj cj' by (auto simp: lru_choice_def)
    next
      fix i assume i: "i \<in> insert k (set (j # js))" and nz: "waittod (R i) \<noteq> 0"
        and eq: "waittod (R i) = waittod (R k')" "waittime (R i) = waittime (R k')"
      show "i \<le> k'"
        using i nz eq c kj jk' by (auto simp: lru_choice_def)
    qed
    moreover have "lru_scan m (j # js) (Some (regs (sysblk m) k, waittod (R k)))
        = lru_scan m js (Some (regs (sysblk m) j, waittod (R j)))"
    proof -
      have "lru_replaces m (R j) (Some (regs (sysblk m) k, waittod (R k))) = Inr True"
        using True by (subst lru_replaces_registered [OF rk]) simp
      then show ?thesis
        by (simp add: dj)
    qed
    ultimately show ?thesis
      using s by auto
  next
    case False
    have "\<exists>k'. lru_choice R (insert k (set js)) k' \<and>
           lru_scan m js (Some (regs (sysblk m) k, waittod (R k)))
             = Inr (Some (regs (sysblk m) k', waittod (R k')))"
      using Cons.prems kj js_above sorted_js
      by (intro Cons.IH) auto
    then obtain k' where c: "lru_choice R (insert k (set js)) k'"
      and s: "lru_scan m js (Some (regs (sysblk m) k, waittod (R k)))
                = Inr (Some (regs (sysblk m) k', waittod (R k')))"
      by blast
    have ck: "waittod (R k') \<le> waittod (R k)"
      and ck': "waittod (R k) = waittod (R k') \<longrightarrow> waittime (R k) \<le> waittime (R k')"
      using c Cons.prems(3) by (auto simp: lru_choice_def)
    have lose: "waittod (R j) \<noteq> 0 \<Longrightarrow>
        waittod (R k) < waittod (R j) \<or>
        (waittod (R j) = waittod (R k) \<and> waittime (R j) < waittime (R k))"
      using False by auto
    have "lru_choice R (insert k (set (j # js))) k'"
      unfolding lru_choice_def
    proof (intro conjI ballI impI)
      show "k' \<in> insert k (set (j # js))"
        using c by (auto simp: lru_choice_def)
      show "waittod (R k') \<noteq> 0"
        using c by (simp add: lru_choice_def)
    next
      fix i assume i: "i \<in> insert k (set (j # js))" and nz: "waittod (R i) \<noteq> 0"
      show "waittod (R k') \<le> waittod (R i)"
        using i nz c ck lose by (auto simp: lru_choice_def)
    next
      fix i assume i: "i \<in> insert k (set (j # js))" and nz: "waittod (R i) \<noteq> 0"
        and eq: "waittod (R i) = waittod (R k')"
      show "waittime (R i) \<le> waittime (R k')"
        using i nz eq c ck ck' lose by (auto simp: lru_choice_def)
    next
      fix i assume i: "i \<in> insert k (set (j # js))" and nz: "waittod (R i) \<noteq> 0"
        and eq: "waittod (R i) = waittod (R k')" "waittime (R i) = waittime (R k')"
      show "i \<le> k'"
        using i nz eq c ck ck' lose by (auto simp: lru_choice_def)
    qed
    moreover have "lru_scan m (j # js) (Some (regs (sysblk m) k, waittod (R k)))
        = lru_scan m js (Some (regs (sysblk m) k, waittod (R k)))"
    proof -
      have "lru_replaces m (R j) (Some (regs (sysblk m) k, waittod (R k))) = Inr False"
        using False by (subst lru_replaces_registered [OF rk]) simp
      then show ?thesis
        by (simp add: dj)
    qed
    ultimately show ?thesis
      using s by auto
  qed
qed


lemma all_bits_cpu_list: "(\<forall>i. bit msk i \<longrightarrow> P i) \<longleftrightarrow> (\<forall>i\<in>set (cpu_list msk). P i)"
  by (simp add: set_cpu_list)

lemma sorted_cpu_list: "sorted_wrt (<) (cpu_list msk)"
  by (simp add: cpu_list_def sorted_wrt_filter)

lemma cpu_list_lowest:
  assumes "bit msk f" and "\<forall>i<f. \<not> bit msk i"
  shows "\<exists>rest. cpu_list msk = f # rest"
proof -
  have "f \<in> set (cpu_list msk)"
    using assms(1) by (simp add: set_cpu_list)
  then obtain x rest where xs: "cpu_list msk = x # rest"
    by (cases "cpu_list msk") auto
  have "x \<in> set (cpu_list msk)"
    by (simp add: xs)
  then have "bit msk x"
    by (simp add: set_cpu_list)
  then have "f \<le> x"
    using assms(2) by (meson not_le)
  moreover have "x \<le> f"
    using sorted_cpu_list [of msk] \<open>f \<in> set (cpu_list msk)\<close> by (auto simp: xs)
  ultimately show ?thesis
    using xs by simp
qed

lemma wakeup_cpu_mask_scan:
  assumes "cpu_list msk = f # rest" and "cpu_regs m f = Some r"
  shows "wakeup_cpu_mask_loop m msk 0 None
           = lru_scan m rest (Some (regs (sysblk m) f, waittod r))"
  using assms
  by (simp add: wakeup_cpu_mask_loop_scan cpu_regs_deref lru_replaces_def)

lemma wakeup_cpu_mask_zero_seed:
  assumes "\<forall>i. bit msk i \<longrightarrow> cpu_regs m i = Some (R i)"
    and "bit msk f" and "\<forall>i<f. \<not> bit msk i"
    and "waittod (R f) = 0"
  shows "wakeup_cpu_mask msk m = Inr (m, [Signal_condition (Intcond (regs (sysblk m) f))])"
proof -
  obtain rest where cl: "cpu_list msk = f # rest"
    using cpu_list_lowest [OF assms(2,3)] by blast
  have rf: "cpu_regs m f = Some (R f)"
    using assms(1,2) by simp
  have "\<forall>j\<in>set rest. cpu_regs m j \<noteq> None"
    using assms(1) set_cpu_list [of msk] by (auto simp: cl)
  then have "wakeup_cpu_mask_loop m msk 0 None = Inr (Some (regs (sysblk m) f, 0))"
    using assms(4) by (simp add: wakeup_cpu_mask_scan [OF cl rf] lru_scan_zero_seed)
  moreover have "msk \<noteq> 0"
    using assms(2) by auto
  ultimately show ?thesis
    by (simp add: wakeup_cpu_mask_def wakeup_cpu_registered [OF rf])
qed

lemma wakeup_cpu_mask_lru:
  assumes "\<forall>i. bit msk i \<longrightarrow> cpu_regs m i = Some (R i)"
    and "bit msk f" and "\<forall>i<f. \<not> bit msk i"
    and "waittod (R f) \<noteq> 0"
  shows "\<exists>k. lru_choice R {i. bit msk i} k \<and>
           wakeup_cpu_mask msk m = Inr (m, [Signal_condition (Intcond (regs (sysblk m) k))])"
proof -
  obtain rest where cl: "cpu_list msk = f # rest"
    using cpu_list_lowest [OF assms(2,3)] by blast
  have bits: "insert f (set rest) = {i. bit msk i}"
    using set_cpu_list [of msk] by (simp add: cl)
  have rf: "cpu_regs m f = Some (R f)"
    using assms(1,2) by simp
  have "\<exists>k. lru_choice R (insert f (set rest)) k \<and>
          lru_scan m rest (Some (regs (sysblk m) f, waittod (R f)))
            = Inr (Some (regs (sysblk m) k, waittod (R k)))"
  proof (rule lru_scan_selects)
    show "\<forall>j\<in>insert f (set rest). cpu_regs m j = Some (R j)"
      using assms(1) bits by auto
    show "sorted_wrt (<) (f # rest)"
      using sorted_cpu_list [of msk] by (simp add: cl)
    show "waittod (R f) \<noteq> 0"
      by (rule assms(4))
  qed
  then obtain k where c: "lru_choice R {i. bit msk i} k"
    and s: "wakeup_cpu_mask_loop m msk 0 None = Inr (Some (regs (sysblk m) k, waittod (R k)))"
    by (auto simp: bits wakeup_cpu_mask_scan [OF cl rf])
  have "cpu_regs m k = Some (R k)"
    using c assms(1) by (simp add: lru_choice_def)
  moreover have "msk \<noteq> 0"
    using assms(2) by auto
  ultimately have "wakeup_cpu_mask msk m
      = Inr (m, [Signal_condition (Intcond (regs (sysblk m) k))])"
    by (simp add: wakeup_cpu_mask_def s wakeup_cpu_registered)
  then show ?thesis
    using c by blast
qed

lemma cpu_regs_lru_machine:
  "i < length ws \<Longrightarrow> cpu_regs (lru_machine ws) i = Some (lru_cpu ws i)"
  by (simp add: cpu_regs_def deref_def lru_machine_def)

lemma regs_lru_machine:
  "i < length ws \<Longrightarrow> regs (sysblk (lru_machine ws)) i = i + 1"
  by (simp add: lru_machine_def)

lemma cpu_list_7: "cpu_list (7 :: 8 word) = [0, 1, 2]"
  by code_simp

section \<open>Waking every processor of a mask\<close>

lemma wakeup_cpus_mask_loop_events:
  "(\<And>j. bit msk j \<Longrightarrow> cpu_regs m (i + j) \<noteq> None) \<Longrightarrow>
   wakeup_cpus_mask_loop msk i m evs =
     Inr (m, evs @ map (\<lambda>j. Signal_condition (Intcond (regs (sysblk m) (i + j)))) (cpu_list msk))"
proof (induction msk i m evs rule: wakeup_cpus_mask_loop.induct)
  case (1 msk i m evs)
  show ?case
  proof (cases "msk = 0")
    case True
    then show ?thesis
      by (subst wakeup_cpus_mask_loop.simps) (simp add: cpu_list_zero)
  next
    case False
    have shifted: "cpu_regs m (i + 1 + j) \<noteq> None" if "bit (drop_bit 1 msk) j" for j
      using that "1.prems" [of "Suc j"] by (simp add: bit_drop_bit_eq)
    show ?thesis
    proof (cases "bit msk 0")
      case True
      then obtain r where r: "cpu_regs m i = Some r"
        using "1.prems" [of 0] by auto
      have w: "wakeup_cpu (regs (sysblk m) i) m
                 = Inr (m, [Signal_condition (Intcond (regs (sysblk m) i))])"
        by (rule wakeup_cpu_registered [OF r])
      have step: "wakeup_cpus_mask_loop msk i m evs =
          wakeup_cpus_mask_loop (drop_bit 1 msk) (i + 1) m
            (evs @ [Signal_condition (Intcond (regs (sysblk m) i))])"
        using False True w by (subst wakeup_cpus_mask_loop.simps) (simp add: and_1_bit0)
      have cl: "cpu_list msk = 0 # map Suc (cpu_list (drop_bit 1 msk))"
        using True cpu_list_shift [of msk] by simp
      have "wakeup_cpus_mask_loop (drop_bit 1 msk) (i + 1) m
              (evs @ [Signal_condition (Intcond (regs (sysblk m) i))]) =
            Inr (m, (evs @ [Signal_condition (Intcond (regs (sysblk m) i))]) @
              map (\<lambda>j. Signal_condition (Intcond (regs (sysblk m) (i + 1 + j))))
                (cpu_list (drop_bit 1 msk)))"
        using False True w shifted
        by (intro "1.IH"(1) [OF False _ w refl]) (simp_all add: and_1_bit0)
      then show ?thesis
        by (simp add: step cl comp_def)
    next
      case nb: False
      have step: "wakeup_cpus_mask_loop msk i m evs =
          wakeup_cpus_mask_loop (drop_bit 1 msk) (i + 1) m evs"
        using False nb by (subst wakeup_cpus_mask_loop.simps) (simp add: and_1_bit0)
      have cl: "cpu_list msk = map Suc (cpu_list (drop_bit 1 msk))"
        using nb cpu_list_shift [of msk] by simp
      have "wakeup_cpus_mask_loop (drop_bit 1 msk) (i + 1) m evs =
            Inr (m, evs @
              map (\<lambda>j. Signal_condition (Intcond (regs (sysblk m) (i + 1 + j))))
                (cpu_list (drop_bit 1 msk)))"
        using False nb shifted
        by (intro "1.IH"(2) [OF False]) (simp_all add: and_1_bit0)
      then show ?thesis
        by (simp add: step cl comp_def)
    qed
  qed
qed

text \<open>
  C8: for a mask whose processors are all registered, \<^verbatim>\<open>wakeup_cpus_mask\<close> issues one
  wake signal for every bit set in the mask, in ascending order of the bits and for no
  other processor: the number of signals is the number of bits set. The wait
  timestamps play no part in the result, and the machine is left as it was.
\<close>

theorem wakeup_cpus_mask_one_signal_per_bit:
  fixes msk :: "'w::len word"
  assumes "\<forall>i. bit msk i \<longrightarrow> cpu_regs m i \<noteq> None"
  shows "\<exists>evs. wakeup_cpus_mask msk m = Inr (m, evs)
           \<and> evs = map (\<lambda>i. Signal_condition (Intcond (regs (sysblk m) i)))
                     (filter (bit msk) [0..<LENGTH('w)])
           \<and> length evs = card {i. bit msk i}"
  using assms wakeup_cpus_mask_loop_events [of msk m 0 "[]"]
  by (simp add: wakeup_cpus_mask_def length_cpu_list) (simp add: cpu_list_def)

theorem wakeup_cpus_mask_one_signal_per_bit_witness:
  "filter (bit (5 :: 8 word)) [0..<8] = [0, 2]
   \<and> cpu_regs (lru_machine [(5, 0), (2, 0), (9, 0)] :: 8 word machine) 0 \<noteq> None
   \<and> cpu_regs (lru_machine [(5, 0), (2, 0), (9, 0)] :: 8 word machine) 2 \<noteq> None
   \<and> wakeup_cpus_mask (5 :: 8 word) (lru_machine [(5, 0), (2, 0), (9, 0)])
       = Inr (lru_machine [(5, 0), (2, 0), (9, 0)],
              [Signal_condition (Intcond 1), Signal_condition (Intcond 3)])"
proof -
  let ?m = "lru_machine [(5, 0), (2, 0), (9, 0)] :: 8 word machine"
  have cl: "cpu_list (5 :: 8 word) = [0, 2]"
    by code_simp
  have reg: "\<forall>i. bit (5 :: 8 word) i \<longrightarrow> cpu_regs ?m i \<noteq> None"
    unfolding all_bits_cpu_list cl by (simp add: cpu_regs_lru_machine)
  have bits: "filter (bit (5 :: 8 word)) [0..<8] = [0, 2]"
    using cl by (simp add: cpu_list_def)
  then have "wakeup_cpus_mask (5 :: 8 word) ?m
      = Inr (?m, [Signal_condition (Intcond 1), Signal_condition (Intcond 3)])"
    using wakeup_cpus_mask_one_signal_per_bit [OF reg]
    by (simp add: regs_lru_machine)
  then show ?thesis
    using bits by (simp add: cpu_regs_lru_machine)
qed

section \<open>Waking the least recently used processor\<close>

text \<open>
  C9: on the empty mask \<^verbatim>\<open>wakeup_cpu_mask\<close> is a no-op: it returns without a fault, issues
  no signal and leaves the machine as it was.
\<close>

theorem wakeup_cpu_mask_empty: "wakeup_cpu_mask 0 m = Inr (m, [])"
  by (simp add: wakeup_cpu_mask_def)

text \<open>
  C4, as amended: on a mask of registered processors that is not empty, \<^verbatim>\<open>wakeup_cpu_mask\<close>
  wakes exactly one processor of the mask. When the lowest-numbered processor \<open>f\<close> of the
  mask has a nonzero \<^verbatim>\<open>waittod\<close>, the processor woken has the smallest nonzero \<^verbatim>\<open>waittod\<close>
  of the mask and, among the processors with that \<^verbatim>\<open>waittod\<close>, the largest \<^verbatim>\<open>waittime\<close>.
  When no processor of the mask has a nonzero \<^verbatim>\<open>waittod\<close>, the lowest-numbered one is
  woken.
\<close>

theorem wakeup_cpu_mask_least_recently_used:
  assumes "\<forall>i. bit msk i \<longrightarrow> cpu_regs m i = Some (R i)"
    and "bit msk f" and "\<forall>i<f. \<not> bit msk i"
  shows "\<exists>k. bit msk k
           \<and> wakeup_cpu_mask msk m = Inr (m, [Signal_condition (Intcond (regs (sysblk m) k))])
           \<and> (waittod (R f) \<noteq> 0 \<longrightarrow>
                waittod (R k) \<noteq> 0 \<and>
                (\<forall>j. bit msk j \<and> waittod (R j) \<noteq> 0 \<longrightarrow>
                   waittod (R k) \<le> waittod (R j) \<and>
                   (waittod (R j) = waittod (R k) \<longrightarrow> waittime (R j) \<le> waittime (R k))))
           \<and> ((\<forall>j. bit msk j \<longrightarrow> waittod (R j) = 0) \<longrightarrow> k = f)"
proof (cases "waittod (R f) = 0")
  case True
  then show ?thesis
    using wakeup_cpu_mask_zero_seed [OF assms True] assms(2) by auto
next
  case False
  obtain k where c: "lru_choice R {i. bit msk i} k"
    and w: "wakeup_cpu_mask msk m = Inr (m, [Signal_condition (Intcond (regs (sysblk m) k))])"
    using wakeup_cpu_mask_lru [OF assms False] by blast
  show ?thesis
  proof (intro exI [of _ k] conjI impI allI)
    show "bit msk k" using c by (simp add: lru_choice_def)
    show "wakeup_cpu_mask msk m = Inr (m, [Signal_condition (Intcond (regs (sysblk m) k))])"
      by (rule w)
    show "waittod (R k) \<noteq> 0" using c by (simp add: lru_choice_def)
    show "waittod (R k) \<le> waittod (R j)" if "bit msk j \<and> waittod (R j) \<noteq> 0" for j
      using c that by (simp add: lru_choice_def)
    show "waittime (R j) \<le> waittime (R k)"
      if "bit msk j \<and> waittod (R j) \<noteq> 0" "waittod (R j) = waittod (R k)" for j
      using c that by (simp add: lru_choice_def)
    show "k = f" if "\<forall>j. bit msk j \<longrightarrow> waittod (R j) = 0"
      using that assms(2) False by simp
  qed
qed


text \<open>
  The instance of C4 with the wait times of day 5, 2 and 9: the processor with 2 is woken.
\<close>

theorem wakeup_cpu_mask_least_recently_used_witness:
  "filter (bit (7 :: 8 word)) [0..<8] = [0, 1, 2]
   \<and> map (cpu_regs (lru_machine [(5, 0), (2, 0), (9, 0)])) [0, 1, 2]
       = map (\<lambda>i. Some (lru_cpu [(5, 0), (2, 0), (9, 0)] i :: 8 word REGS)) [0, 1, 2]
   \<and> wakeup_cpu_mask (7 :: 8 word) (lru_machine [(5, 0), (2, 0), (9, 0)])
       = Inr (lru_machine [(5, 0), (2, 0), (9, 0)], [Signal_condition (Intcond 2)])"
proof -
  let ?ws = "[(5, 0), (2, 0), (9, 0)] :: (TOD \<times> U64) list"
  let ?m = "lru_machine ?ws :: 8 word machine"
  let ?R = "lru_cpu ?ws :: nat \<Rightarrow> 8 word REGS"
  have reg: "\<forall>i. bit (7 :: 8 word) i \<longrightarrow> cpu_regs ?m i = Some (?R i)"
    unfolding all_bits_cpu_list cpu_list_7 by (simp add: cpu_regs_lru_machine)
  have low: "bit (7 :: 8 word) 0" "\<forall>i<0. \<not> bit (7 :: 8 word) i"
    by simp_all
  obtain k where k: "bit (7 :: 8 word) k"
    and w: "wakeup_cpu_mask 7 ?m = Inr (?m, [Signal_condition (Intcond (regs (sysblk ?m) k))])"
    and lru: "waittod (?R 0) \<noteq> 0 \<longrightarrow>
                (\<forall>j. bit (7 :: 8 word) j \<and> waittod (?R j) \<noteq> 0 \<longrightarrow> waittod (?R k) \<le> waittod (?R j))"
    using wakeup_cpu_mask_least_recently_used [OF reg low] by blast
  have nz: "waittod (?R 0) \<noteq> 0"
    by (simp add: lru_cpu_def)
  have one: "bit (7 :: 8 word) 1 \<and> waittod (?R 1) \<noteq> 0" and two: "waittod (?R 1) = 2"
    by (simp_all add: lru_cpu_def)
  have "waittod (?R k) \<le> waittod (?R 1)"
    using lru nz one by blast
  then have "waittod (?R k) \<le> 2"
    by (simp only: two)
  moreover have "k \<in> {0, 1, 2}"
    using k set_cpu_list [of "7 :: 8 word"] unfolding cpu_list_7 by auto
  ultimately have "k = 1"
    by (auto simp: lru_cpu_def)
  then have "wakeup_cpu_mask 7 ?m = Inr (?m, [Signal_condition (Intcond 2)])"
    using w by (simp add: regs_lru_machine)
  moreover have "filter (bit (7 :: 8 word)) [0..<8] = [0, 1, 2]"
    using cpu_list_7 by (simp add: cpu_list_def)
  ultimately show ?thesis
    by (simp add: cpu_regs_lru_machine)
qed

text \<open>
  C4 as stated fails. With the wait times of day 0 and 0 on processors 0 and 1 the
  processor woken is processor 0 (address 1): no processor with a nonzero \<^verbatim>\<open>waittod\<close> is
  there to be woken. With 0 and 5 the processor woken is again processor 0, whose
  \<^verbatim>\<open>waittod\<close> is zero, and not processor 1, the only one with a nonzero \<^verbatim>\<open>waittod\<close>.
\<close>

theorem wakeup_cpu_mask_zero_first_counterexample:
  "map_sum id snd (wakeup_cpu_mask (3 :: 8 word) (lru_machine [(0, 0), (0, 0)]))
     = Inr [Signal_condition (Intcond 1)]
   \<and> map_option waittod (cpu_regs (lru_machine [(0, 0), (0, 0)] :: 8 word machine) 0) = Some 0
   \<and> map_option waittod (cpu_regs (lru_machine [(0, 0), (0, 0)] :: 8 word machine) 1) = Some 0
   \<and> map_sum id snd (wakeup_cpu_mask (3 :: 8 word) (lru_machine [(0, 0), (5, 0)]))
     = Inr [Signal_condition (Intcond 1)]
   \<and> regs (sysblk (lru_machine [(0, 0), (5, 0)] :: 8 word machine)) 0 = 1
   \<and> map_option waittod (cpu_regs (lru_machine [(0, 0), (5, 0)] :: 8 word machine) 0) = Some 0
   \<and> map_option waittod (cpu_regs (lru_machine [(0, 0), (5, 0)] :: 8 word machine) 1) = Some 5"
  by code_simp

text \<open>
  The second instance of C4: of two processors with the same \<^verbatim>\<open>waittod\<close> and the wait
  times 100 and 50, the one with 100 is woken, whichever comes first.
\<close>

lemma wakeup_cpu_mask_tie_example:
  "map_sum id snd (wakeup_cpu_mask (3 :: 8 word) (lru_machine [(3, 100), (3, 50)]))
     = Inr [Signal_condition (Intcond 1)]
   \<and> map_sum id snd (wakeup_cpu_mask (3 :: 8 word) (lru_machine [(3, 50), (3, 100)]))
     = Inr [Signal_condition (Intcond 2)]"
  by code_simp

text \<open>
  C5: the code at an input where the claim fails. Processor 0 has the \<^verbatim>\<open>waittod\<close> 0, the
  processors 1 and 2 have 7 and 3. Processor 0 seeds the selection with
  \<^verbatim>\<open>lru_waittod\<close> 0, which no later \<^verbatim>\<open>waittod\<close> is below, and is the one woken.
\<close>

theorem wakeup_cpu_mask_zero_seed_is_kept:
  "map_sum id snd (wakeup_cpu_mask (7 :: 8 word) (lru_machine [(0, 0), (7, 0), (3, 0)]))
     = Inr [Signal_condition (Intcond 1)]
   \<and> regs (sysblk (lru_machine [(0, 0), (7, 0), (3, 0)] :: 8 word machine)) 0 = 1
   \<and> map_option waittod (cpu_regs (lru_machine [(0, 0), (7, 0), (3, 0)] :: 8 word machine) 0)
       = Some 0
   \<and> map_option waittod (cpu_regs (lru_machine [(0, 0), (7, 0), (3, 0)] :: 8 word machine) 2)
       = Some 3"
  by code_simp

text \<open>
  C10: the code at an input where the claim fails. The processors 1 and 2 are tied on
  the \<^verbatim>\<open>waittod\<close> 3 and the \<^verbatim>\<open>waittime\<close> 7; processor 0 has the \<^verbatim>\<open>waittod\<close> 0. With
  processor 0 in the mask it is processor 0 that is woken; without it, processor 2.
\<close>

theorem wakeup_cpu_mask_tie_after_zero_seed:
  "map_sum id snd (wakeup_cpu_mask (7 :: 8 word) (lru_machine [(0, 0), (3, 7), (3, 7)]))
     = Inr [Signal_condition (Intcond 1)]
   \<and> map_sum id snd (wakeup_cpu_mask (6 :: 8 word) (lru_machine [(0, 0), (3, 7), (3, 7)]))
     = Inr [Signal_condition (Intcond 3)]"
  by code_simp

section \<open>Synchronization: the loop over the candidates\<close>

lemma and_CPU_BIT: "(msk :: 'w::len word) AND CPU_BIT i \<noteq> 0 \<longleftrightarrow> bit msk i"
  by (simp add: CPU_BIT_def bit_iff_and_push_bit_not_eq_0)

lemma bit_xor_CPU_BIT:
  "bit msk i \<Longrightarrow> bit ((msk :: 'w::len word) XOR CPU_BIT i) j \<longleftrightarrow> bit msk j \<and> j \<noteq> i"
  by (auto simp: CPU_BIT_def bit_xor_iff bit_exp_iff possible_bit_word dest: bit_imp_le_length)

lemma ON_IC_INTERRUPT_valid:
  "deref m p \<noteq> Inl Invalid_pointer \<Longrightarrow> ON_IC_INTERRUPT p m = Inr [On_ic_interrupt p]"
  by (cases "deref m p") (auto simp: ON_IC_INTERRUPT_def intro: fault.exhaust)


lemma synchronize_cpus_loop_result:
  assumes "\<forall>j. i \<le> j \<and> int j < hicpu (sysblk m) \<and> bit msk j \<longrightarrow>
             cpu_regs m j = Some (R j) \<and>
             (\<not> AT (R j) \<and> SIE (R j) \<longrightarrow> deref m (guestregs (R j)) \<noteq> Inl Invalid_pointer)"
  shows "\<exists>msk'.
           synchronize_cpus_loop AT SIE m msk i n evs =
             Inr (msk',
                  n + length (filter (\<lambda>j. bit msk j \<and> \<not> AT (R j)) [i..<nat (hicpu (sysblk m))]),
                  evs @ concat (map (ic_marks m SIE R)
                    (filter (\<lambda>j. bit msk j \<and> \<not> AT (R j)) [i..<nat (hicpu (sysblk m))])))
           \<and> (\<forall>j. bit msk' j \<longleftrightarrow>
                  bit msk j \<and> \<not> (i \<le> j \<and> int j < hicpu (sysblk m) \<and> AT (R j)))"
  using assms
proof (induction AT SIE m msk i n evs rule: synchronize_cpus_loop.induct)
  case (1 AT SIE m msk i n evs)
  let ?H = "hicpu (sysblk m)"
  let ?outs = "\<lambda>w k. filter (\<lambda>j. bit w j \<and> \<not> AT (R j)) [k..<nat ?H]"
  show ?case
  proof (cases "msk \<noteq> 0 \<and> int i < ?H")
    case False
    have stop: "synchronize_cpus_loop AT SIE m msk i n evs = Inr (msk, n, evs)"
      using False by (subst synchronize_cpus_loop.simps) auto
    have "?outs msk i = []"
      using False by (auto simp: filter_empty_conv)
    moreover have "\<forall>j. bit msk j \<longleftrightarrow> bit msk j \<and> \<not> (i \<le> j \<and> int j < ?H \<and> AT (R j))"
      using False by auto
    ultimately show ?thesis
      using stop by auto
  next
    case run: True
    then have "i < nat ?H"
      by linarith
    then have upt: "[i..<nat ?H] = i # [i + 1..<nat ?H]"
      by (simp add: upt_conv_Cons)
    have later: "\<forall>j. i + 1 \<le> j \<and> int j < ?H \<and> bit msk j \<longrightarrow>
             cpu_regs m j = Some (R j) \<and>
             (\<not> AT (R j) \<and> SIE (R j) \<longrightarrow> deref m (guestregs (R j)) \<noteq> Inl Invalid_pointer)"
      using "1.prems" by auto
    show ?thesis
    proof (cases "bit msk i")
      case nb: False
      have step: "synchronize_cpus_loop AT SIE m msk i n evs
                    = synchronize_cpus_loop AT SIE m msk (i + 1) n evs"
        using run nb by (subst synchronize_cpus_loop.simps) (simp add: and_CPU_BIT)
      have outs: "?outs msk i = ?outs msk (i + 1)"
        using nb by (simp add: upt)
      obtain msk' where
        r: "synchronize_cpus_loop AT SIE m msk (i + 1) n evs =
              Inr (msk', n + length (?outs msk (i + 1)),
                   evs @ concat (map (ic_marks m SIE R) (?outs msk (i + 1))))"
        and b: "\<forall>j. bit msk' j \<longleftrightarrow>
                  bit msk j \<and> \<not> (i + 1 \<le> j \<and> int j < ?H \<and> AT (R j))"
        using "1.IH"(4) [OF run refl _ later] nb by (auto simp: and_CPU_BIT)
      have "\<forall>j. bit msk' j \<longleftrightarrow> bit msk j \<and> \<not> (i \<le> j \<and> int j < ?H \<and> AT (R j))"
      proof
        fix j
        show "bit msk' j \<longleftrightarrow> bit msk j \<and> \<not> (i \<le> j \<and> int j < ?H \<and> AT (R j))"
          using b [rule_format, of j] nb by (cases "j = i") auto
      qed
      then show ?thesis
        using r by (auto simp: step outs)
    next
      case yb: True
      have ri: "cpu_regs m i = Some (R i)"
        and gi: "\<not> AT (R i) \<and> SIE (R i) \<longrightarrow> deref m (guestregs (R i)) \<noteq> Inl Invalid_pointer"
        using "1.prems" run yb by auto
      have di: "deref m (regs (sysblk m) i) = Inr (R i)"
        using ri by (simp add: cpu_regs_deref)
      have andi: "msk AND CPU_BIT i \<noteq> 0"
        using yb by (simp add: and_CPU_BIT)
      show ?thesis
      proof (cases "AT (R i)")
        case at: True
        let ?w = "msk XOR CPU_BIT i"
        have step: "synchronize_cpus_loop AT SIE m msk i n evs
                      = synchronize_cpus_loop AT SIE m ?w (i + 1) n evs"
          using run at
          by (subst synchronize_cpus_loop.simps) (simp add: andi di del: One_nat_def)
        have later': "\<forall>j. i + 1 \<le> j \<and> int j < ?H \<and> bit ?w j \<longrightarrow>
             cpu_regs m j = Some (R j) \<and>
             (\<not> AT (R j) \<and> SIE (R j) \<longrightarrow> deref m (guestregs (R j)) \<noteq> Inl Invalid_pointer)"
          using later by (simp add: bit_xor_CPU_BIT [OF yb])
        have outs': "?outs ?w (i + 1) = ?outs msk (i + 1)"
          by (rule filter_cong) (auto simp: bit_xor_CPU_BIT [OF yb])
        have outs: "?outs msk i = ?outs msk (i + 1)"
          using at by (simp add: upt)
        obtain msk' where
          r: "synchronize_cpus_loop AT SIE m ?w (i + 1) n evs =
                Inr (msk', n + length (?outs ?w (i + 1)),
                     evs @ concat (map (ic_marks m SIE R) (?outs ?w (i + 1))))"
          and b: "\<forall>j. bit msk' j \<longleftrightarrow>
                    bit ?w j \<and> \<not> (i + 1 \<le> j \<and> int j < ?H \<and> AT (R j))"
          using "1.IH"(1) [OF run refl andi di at later'] by blast
        have "\<forall>j. bit msk' j \<longleftrightarrow> bit msk j \<and> \<not> (i \<le> j \<and> int j < ?H \<and> AT (R j))"
        proof
          fix j
          show "bit msk' j \<longleftrightarrow> bit msk j \<and> \<not> (i \<le> j \<and> int j < ?H \<and> AT (R j))"
            using b [rule_format, of j] at run
            by (cases "j = i") (auto simp: bit_xor_CPU_BIT [OF yb])
        qed
        moreover have "synchronize_cpus_loop AT SIE m ?w (i + 1) n evs =
                Inr (msk', n + length (?outs msk (i + 1)),
                     evs @ concat (map (ic_marks m SIE R) (?outs msk (i + 1))))"
          using r by (simp only: outs')
        ultimately show ?thesis
          by (auto simp: step outs)
      next
        case nat: False
        have outs: "?outs msk i = i # ?outs msk (i + 1)"
          using nat yb by (simp add: upt)
        have oi: "ON_IC_INTERRUPT (regs (sysblk m) i) m = Inr [On_ic_interrupt (regs (sysblk m) i)]"
          by (rule ON_IC_INTERRUPT_valid) (simp add: di)
        show ?thesis
        proof (cases "SIE (R i)")
          case sie: True
          have og: "ON_IC_INTERRUPT (guestregs (R i)) m = Inr [On_ic_interrupt (guestregs (R i))]"
            using gi nat sie by (intro ON_IC_INTERRUPT_valid) simp
          have step: "synchronize_cpus_loop AT SIE m msk i n evs
                = synchronize_cpus_loop AT SIE m msk (i + 1) (n + 1)
                    (evs @ [On_ic_interrupt (regs (sysblk m) i)]
                         @ [On_ic_interrupt (guestregs (R i))])"
            using run nat sie
            by (subst synchronize_cpus_loop.simps) (simp add: andi di oi og del: One_nat_def)
          obtain msk' where
            r: "synchronize_cpus_loop AT SIE m msk (i + 1) (n + 1)
                    (evs @ [On_ic_interrupt (regs (sysblk m) i)]
                         @ [On_ic_interrupt (guestregs (R i))]) =
                  Inr (msk', n + 1 + length (?outs msk (i + 1)),
                       (evs @ [On_ic_interrupt (regs (sysblk m) i)]
                            @ [On_ic_interrupt (guestregs (R i))])
                         @ concat (map (ic_marks m SIE R) (?outs msk (i + 1))))"
            and b: "\<forall>j. bit msk' j \<longleftrightarrow>
                      bit msk j \<and> \<not> (i + 1 \<le> j \<and> int j < ?H \<and> AT (R j))"
            using "1.IH"(2) [OF run refl andi di nat oi sie og later] by blast
          have "\<forall>j. bit msk' j \<longleftrightarrow> bit msk j \<and> \<not> (i \<le> j \<and> int j < ?H \<and> AT (R j))"
          proof
            fix j
            show "bit msk' j \<longleftrightarrow> bit msk j \<and> \<not> (i \<le> j \<and> int j < ?H \<and> AT (R j))"
              using b [rule_format, of j] nat by (cases "j = i") auto
          qed
          moreover have "ic_marks m SIE R i
              = [On_ic_interrupt (regs (sysblk m) i), On_ic_interrupt (guestregs (R i))]"
            using sie by (simp add: ic_marks_def)
          ultimately show ?thesis
            using r by (auto simp: step outs)
        next
          case nosie: False
          have step: "synchronize_cpus_loop AT SIE m msk i n evs
                = synchronize_cpus_loop AT SIE m msk (i + 1) (n + 1)
                    (evs @ [On_ic_interrupt (regs (sysblk m) i)])"
            using run nat nosie
            by (subst synchronize_cpus_loop.simps) (simp add: andi di oi del: One_nat_def)
          obtain msk' where
            r: "synchronize_cpus_loop AT SIE m msk (i + 1) (n + 1)
                    (evs @ [On_ic_interrupt (regs (sysblk m) i)]) =
                  Inr (msk', n + 1 + length (?outs msk (i + 1)),
                       (evs @ [On_ic_interrupt (regs (sysblk m) i)])
                         @ concat (map (ic_marks m SIE R) (?outs msk (i + 1))))"
            and b: "\<forall>j. bit msk' j \<longleftrightarrow>
                      bit msk j \<and> \<not> (i + 1 \<le> j \<and> int j < ?H \<and> AT (R j))"
            using "1.IH"(3) [OF run refl andi di nat oi nosie later] by blast
          have "\<forall>j. bit msk' j \<longleftrightarrow> bit msk j \<and> \<not> (i \<le> j \<and> int j < ?H \<and> AT (R j))"
          proof
            fix j
            show "bit msk' j \<longleftrightarrow> bit msk j \<and> \<not> (i \<le> j \<and> int j < ?H \<and> AT (R j))"
              using b [rule_format, of j] nat by (cases "j = i") auto
          qed
          moreover have "ic_marks m SIE R i = [On_ic_interrupt (regs (sysblk m) i)]"
            using nosie by (simp add: ic_marks_def)
          ultimately show ?thesis
            using r by (auto simp: step outs)
        qed
      qed
    qed
  qed
qed


lemma filter_upt_beyond:
  assumes "\<forall>j. S j \<longrightarrow> j < a"
  shows "filter S [0..<a + d] = filter S [0..<a]"
proof -
  have "filter S [a..<a + d] = []"
    using assms by (auto simp: filter_empty_conv)
  moreover have "[0..<a + d] = [0..<a] @ [a..<a + d]"
    by (rule upt_add_eq_append) simp
  ultimately show ?thesis
    by simp
qed

lemma filter_upt_bounds:
  assumes "\<forall>j. S j \<longrightarrow> j < a \<and> j < b"
  shows "filter S [0..<a] = filter S [0..<b]"
proof (cases "a \<le> b")
  case True
  then obtain d where d: "b = a + d"
    using le_Suc_ex by blast
  have "\<forall>j. S j \<longrightarrow> j < a"
    using assms by blast
  then have "filter S [0..<a + d] = filter S [0..<a]"
    by (rule filter_upt_beyond)
  then show ?thesis
    by (simp only: d)
next
  case False
  then have "b \<le> a"
    by simp
  then obtain d where d: "a = b + d"
    using le_Suc_ex by blast
  have "\<forall>j. S j \<longrightarrow> j < b"
    using assms by blast
  then have "filter S [0..<b + d] = filter S [0..<b]"
    by (rule filter_upt_beyond)
  then show ?thesis
    by (simp only: d)
qed

lemma synchronize_cpus_unfold:
  assumes "deref m rp = Inr r" and "deref m (hostregs r) = Inr h"
    and "synchronize_cpus_loop AT_SYNCPOINT SIE_MODE m
           (started_mask (sysblk m) AND NOT (waiting_mask (sysblk m) OR cpubit h)) 0 0 []
         = Inr (msk', n, evs)"
  shows "synchronize_cpus AT_SYNCPOINT SIE_MODE rp m =
           (if n \<noteq> 0 \<and> msk' \<noteq> 0 then
              Inr (Blocked,
                   m\<lparr>sysblk := (sysblk m)\<lparr>sync_mask := msk', syncing := True,
                                           intowner := LOCK_OWNER_NONE\<rparr>\<rparr>,
                   evs @ [Wait_condition Sync_cond])
            else Inr (Returned, m, evs))"
  unfolding synchronize_cpus_def
  by (simp only: assms Let_def sum.case prod.case)

lemma deref_sync_machine:
  "0 < p \<Longrightarrow> p \<le> length fs \<Longrightarrow>
   deref (sync_machine s w pm a ow fs) p = Inr (sync_cpu fs (p - 1))"
  by (simp add: deref_def sync_machine_def)

lemma cpu_regs_sync_machine:
  "i < length fs \<Longrightarrow> cpu_regs (sync_machine s w pm a ow fs) i = Some (sync_cpu fs i)"
  by (simp add: cpu_regs_def deref_def sync_machine_def)

text \<open>
  C6: when every candidate of \<^verbatim>\<open>synchronize_cpus\<close> below \<^verbatim>\<open>hicpu\<close> (every started
  processor that is neither waiting nor the caller) is at a syncpoint, \<^verbatim>\<open>synchronize_cpus\<close>
  returns without a \<^verbatim>\<open>wait_condition\<close> and without any other event, and the machine,
  with \<^verbatim>\<open>syncing\<close>, \<^verbatim>\<open>sync_mask\<close> and \<^verbatim>\<open>intowner\<close>, is as it was.
\<close>

theorem synchronize_cpus_all_at_syncpoint:
  assumes "deref m rp = Inr r" and "deref m (hostregs r) = Inr h"
    and "\<forall>j. int j < hicpu (sysblk m)
              \<and> bit (started_mask (sysblk m) AND NOT (waiting_mask (sysblk m) OR cpubit h)) j
            \<longrightarrow> cpu_regs m j = Some (R j) \<and> AT_SYNCPOINT (R j)"
  shows "synchronize_cpus AT_SYNCPOINT SIE_MODE rp m = Inr (Returned, m, [])"
proof -
  let ?cand = "started_mask (sysblk m) AND NOT (waiting_mask (sysblk m) OR cpubit h)"
  have none: "filter (\<lambda>j. bit ?cand j \<and> \<not> AT_SYNCPOINT (R j)) [0..<nat (hicpu (sysblk m))] = []"
    using assms(3) by (auto simp: filter_empty_conv)
  have pre: "\<forall>j. 0 \<le> j \<and> int j < hicpu (sysblk m) \<and> bit ?cand j \<longrightarrow>
             cpu_regs m j = Some (R j) \<and>
             (\<not> AT_SYNCPOINT (R j) \<and> SIE_MODE (R j)
                \<longrightarrow> deref m (guestregs (R j)) \<noteq> Inl Invalid_pointer)"
    using assms(3) by blast
  obtain msk' where
    "synchronize_cpus_loop AT_SYNCPOINT SIE_MODE m ?cand 0 0 [] =
       Inr (msk',
            0 + length (filter (\<lambda>j. bit ?cand j \<and> \<not> AT_SYNCPOINT (R j))
                          [0..<nat (hicpu (sysblk m))]),
            [] @ concat (map (ic_marks m SIE_MODE R)
                    (filter (\<lambda>j. bit ?cand j \<and> \<not> AT_SYNCPOINT (R j))
                       [0..<nat (hicpu (sysblk m))])))"
    using synchronize_cpus_loop_result [OF pre, of 0 "[]"] by blast
  then have "synchronize_cpus_loop AT_SYNCPOINT SIE_MODE m ?cand 0 0 [] = Inr (msk', 0, [])"
    by (simp only: none) simp
  then show ?thesis
    using synchronize_cpus_unfold [OF assms(1,2)] by simp
qed

theorem synchronize_cpus_all_at_syncpoint_witness:
  "synchronize_cpus intwait (\<lambda>r. guestregs r \<noteq> 0) 1
     (sync_machine 7 0 0 False (LOCK_OWNER_CPU 0)
        [(False, False), (True, False), (True, False)] :: 8 word machine)
   = Inr (Returned,
          sync_machine 7 0 0 False (LOCK_OWNER_CPU 0)
            [(False, False), (True, False), (True, False)], [])"
proof -
  let ?fs = "[(False, False), (True, False), (True, False)]"
  let ?m = "sync_machine 7 0 0 False (LOCK_OWNER_CPU 0) ?fs :: 8 word machine"
  have self: "deref ?m 1 = Inr (sync_cpu ?fs 0)"
    using deref_sync_machine [of 1 ?fs] by simp
  have host: "deref ?m (hostregs (sync_cpu ?fs 0 :: 8 word REGS)) = Inr (sync_cpu ?fs 0)"
    using deref_sync_machine [of 1 ?fs] by (simp add: sync_cpu_def)
  have cand: "started_mask (sysblk ?m)
                AND NOT (waiting_mask (sysblk ?m) OR cpubit (sync_cpu ?fs 0 :: 8 word REGS)) = 6"
    by (simp add: sync_machine_def sync_cpu_def CPU_BIT_def)
  have cl: "cpu_list (6 :: 8 word) = [1, 2]"
    by code_simp
  have "\<forall>j\<in>set (cpu_list (6 :: 8 word)).
          cpu_regs ?m j = Some (sync_cpu ?fs j) \<and> intwait (sync_cpu ?fs j :: 8 word REGS)"
    unfolding cl by (simp add: cpu_regs_sync_machine) (simp add: sync_cpu_def)
  then have "\<forall>j. int j < hicpu (sysblk ?m)
              \<and> bit (started_mask (sysblk ?m)
                      AND NOT (waiting_mask (sysblk ?m) OR cpubit (sync_cpu ?fs 0 :: 8 word REGS))) j
            \<longrightarrow> cpu_regs ?m j = Some (sync_cpu ?fs j) \<and> intwait (sync_cpu ?fs j :: 8 word REGS)"
    unfolding cand by (simp add: set_cpu_list)
  then show ?thesis
    by (rule synchronize_cpus_all_at_syncpoint [OF self host])
qed

text \<open>
  C2: \<^verbatim>\<open>synchronize_cpus\<close> starts from the candidates
  \<^verbatim>\<open>started_mask & ~(waiting_mask | cpubit)\<close>, all registered below \<^verbatim>\<open>hicpu\<close>. A candidate
  at a syncpoint leaves the mask and gets no mark. Every other candidate stays in the
  mask, gets a pending-interrupt mark (and so does its guest in SIE mode), in ascending
  order, and is counted. With no candidate left the function returns; otherwise the
  remaining mask becomes \<^verbatim>\<open>sync_mask\<close> and the caller waits on \<^verbatim>\<open>sync_cond\<close>.
\<close>

theorem synchronize_cpus_candidates:
  fixes m :: "'w::len word machine"
  assumes "deref m rp = Inr r" and "deref m (hostregs r) = Inr h"
    and "cand = started_mask (sysblk m) AND NOT (waiting_mask (sysblk m) OR cpubit h)"
    and "\<forall>j. bit cand j \<longrightarrow>
            int j < hicpu (sysblk m) \<and> cpu_regs m j = Some (R j) \<and>
            (\<not> AT_SYNCPOINT (R j) \<and> SIE_MODE (R j)
               \<longrightarrow> deref m (guestregs (R j)) \<noteq> Inl Invalid_pointer)"
    and "outs = filter (\<lambda>j. \<not> AT_SYNCPOINT (R j)) (cpu_list cand)"
  shows "\<exists>msk'.
           synchronize_cpus_loop AT_SYNCPOINT SIE_MODE m cand 0 0 []
             = Inr (msk', length outs, concat (map (ic_marks m SIE_MODE R) outs))
           \<and> (\<forall>j. bit msk' j \<longleftrightarrow> bit cand j \<and> \<not> AT_SYNCPOINT (R j))
           \<and> synchronize_cpus AT_SYNCPOINT SIE_MODE rp m =
               (if outs = [] then Inr (Returned, m, [])
                else Inr (Blocked,
                          m\<lparr>sysblk := (sysblk m)\<lparr>sync_mask := msk', syncing := True,
                                                  intowner := LOCK_OWNER_NONE\<rparr>\<rparr>,
                          concat (map (ic_marks m SIE_MODE R) outs)
                            @ [Wait_condition Sync_cond]))"
proof -
  let ?H = "hicpu (sysblk m)"
  let ?S = "\<lambda>j. bit cand j \<and> \<not> AT_SYNCPOINT (R j)"
  have "\<forall>j. ?S j \<longrightarrow> j < nat ?H \<and> j < LENGTH('w)"
    using assms(4) by (auto dest: bit_imp_le_length)
  then have "filter ?S [0..<nat ?H] = filter ?S [0..<LENGTH('w)]"
    by (rule filter_upt_bounds)
  then have outs: "filter ?S [0..<nat ?H] = outs"
    by (simp add: assms(5) cpu_list_def)
  have pre: "\<forall>j. 0 \<le> j \<and> int j < ?H \<and> bit cand j \<longrightarrow>
             cpu_regs m j = Some (R j) \<and>
             (\<not> AT_SYNCPOINT (R j) \<and> SIE_MODE (R j)
                \<longrightarrow> deref m (guestregs (R j)) \<noteq> Inl Invalid_pointer)"
    using assms(4) by blast
  obtain msk' where
    l0: "synchronize_cpus_loop AT_SYNCPOINT SIE_MODE m cand 0 0 [] =
          Inr (msk', 0 + length (filter ?S [0..<nat ?H]),
               [] @ concat (map (ic_marks m SIE_MODE R) (filter ?S [0..<nat ?H])))"
    and b0: "\<forall>j. bit msk' j \<longleftrightarrow> bit cand j \<and> \<not> (0 \<le> j \<and> int j < ?H \<and> AT_SYNCPOINT (R j))"
    using synchronize_cpus_loop_result [OF pre, of 0 "[]"] by blast
  have l: "synchronize_cpus_loop AT_SYNCPOINT SIE_MODE m cand 0 0 []
          = Inr (msk', length outs, concat (map (ic_marks m SIE_MODE R) outs))"
    using l0 by (simp only: outs) simp
  have b: "\<forall>j. bit msk' j \<longleftrightarrow> bit cand j \<and> \<not> AT_SYNCPOINT (R j)"
    using b0 assms(4) by auto
  have set_outs: "set outs = {j. bit msk' j}"
    using b by (auto simp: assms(5) set_cpu_list)
  have nonzero: "msk' \<noteq> 0" if ne: "outs \<noteq> []"
  proof -
    obtain j js where "outs = j # js"
      using ne by (cases outs) auto
    then have "j \<in> set outs"
      by simp
    then have "bit msk' j"
      using set_outs by simp
    then show ?thesis
      by auto
  qed
  have "synchronize_cpus AT_SYNCPOINT SIE_MODE rp m =
          (if outs = [] then Inr (Returned, m, [])
           else Inr (Blocked,
                     m\<lparr>sysblk := (sysblk m)\<lparr>sync_mask := msk', syncing := True,
                                             intowner := LOCK_OWNER_NONE\<rparr>\<rparr>,
                     concat (map (ic_marks m SIE_MODE R) outs) @ [Wait_condition Sync_cond]))"
    using nonzero synchronize_cpus_unfold [OF assms(1,2) l [unfolded assms(3)]]
    by (cases "outs = []") simp_all
  then show ?thesis
    using l b by blast
qed


theorem synchronize_cpus_candidates_witness:
  "synchronize_cpus intwait (\<lambda>r. guestregs r \<noteq> 0) 1
     (sync_machine 31 8 0 False (LOCK_OWNER_CPU 0)
        [(False, False), (False, False), (False, True), (False, False), (True, False)]
      :: 8 word machine)
   = Inr (Blocked,
          sync_machine 31 8 6 True LOCK_OWNER_NONE
            [(False, False), (False, False), (False, True), (False, False), (True, False)],
          [On_ic_interrupt 2, On_ic_interrupt 3, On_ic_interrupt 103,
           Wait_condition Sync_cond])"
proof -
  let ?fs = "[(False, False), (False, False), (False, True), (False, False), (True, False)]"
  let ?m = "sync_machine 31 8 0 False (LOCK_OWNER_CPU 0) ?fs :: 8 word machine"
  let ?R = "sync_cpu ?fs :: nat \<Rightarrow> 8 word REGS"
  let ?SIE = "\<lambda>r :: 8 word REGS. guestregs r \<noteq> 0"
  have self: "deref ?m 1 = Inr (?R 0)"
    using deref_sync_machine [of 1 ?fs] by simp
  have host: "deref ?m (hostregs (?R 0)) = Inr (?R 0)"
    using deref_sync_machine [of 1 ?fs] by (simp add: sync_cpu_def)
  have cand: "(22 :: 8 word)
      = started_mask (sysblk ?m) AND NOT (waiting_mask (sysblk ?m) OR cpubit (?R 0))"
    by (simp add: sync_machine_def sync_cpu_def CPU_BIT_def)
  have cl: "cpu_list (22 :: 8 word) = [1, 2, 4]"
    by code_simp
  have guest: "deref ?m (guestregs (?R 2)) \<noteq> Inl Invalid_pointer"
    by (simp add: deref_def sync_machine_def sync_cpu_def)
  have "\<forall>j\<in>set (cpu_list (22 :: 8 word)).
          int j < hicpu (sysblk ?m) \<and> cpu_regs ?m j = Some (?R j) \<and>
          (\<not> intwait (?R j) \<and> ?SIE (?R j) \<longrightarrow> deref ?m (guestregs (?R j)) \<noteq> Inl Invalid_pointer)"
    unfolding cl using guest
    by (simp add: cpu_regs_sync_machine) (simp add: sync_cpu_def sync_machine_def)
  then have reg: "\<forall>j. bit (22 :: 8 word) j \<longrightarrow>
          int j < hicpu (sysblk ?m) \<and> cpu_regs ?m j = Some (?R j) \<and>
          (\<not> intwait (?R j) \<and> ?SIE (?R j) \<longrightarrow> deref ?m (guestregs (?R j)) \<noteq> Inl Invalid_pointer)"
    by (simp only: all_bits_cpu_list)
  have outs: "[1, 2] = filter (\<lambda>j. \<not> intwait (?R j)) (cpu_list (22 :: 8 word))"
    unfolding cl by (simp add: sync_cpu_def)
  obtain msk' where
    l: "synchronize_cpus_loop intwait ?SIE ?m 22 0 0 []
          = Inr (msk', length [1 :: nat, 2], concat (map (ic_marks ?m ?SIE ?R) [1, 2]))"
    and s: "synchronize_cpus intwait ?SIE 1 ?m =
              (if [1 :: nat, 2] = [] then Inr (Returned, ?m, [])
               else Inr (Blocked,
                         ?m\<lparr>sysblk := (sysblk ?m)\<lparr>sync_mask := msk', syncing := True,
                                                   intowner := LOCK_OWNER_NONE\<rparr>\<rparr>,
                         concat (map (ic_marks ?m ?SIE ?R) [1, 2]) @ [Wait_condition Sync_cond]))"
    using synchronize_cpus_candidates [OF self host cand reg outs] by blast
  have "synchronize_cpus_loop intwait ?SIE ?m 22 0 0 []
          = Inr (6, 2, [On_ic_interrupt 2, On_ic_interrupt 3, On_ic_interrupt 103])"
    by code_simp
  then have "msk' = 6"
    using l by simp
  then show ?thesis
    using s by (simp add: ic_marks_def) (simp add: sync_machine_def sync_cpu_def)
qed

section \<open>Obtaining and releasing the interrupt lock\<close>

lemma sync_cpu_fields:
  "cpuad (sync_cpu fs i) = i"
  "cpubit (sync_cpu fs i) = CPU_BIT i"
  "hostregs (sync_cpu fs i) = i + 1"
  "intwait (sync_cpu fs i) = fst (fs ! i)"
  by (simp_all add: sync_cpu_def)

lemma sync_machine_sysblk:
  "sysblk (sync_machine s w pm a ow fs) =
     \<lparr>started_mask = s, waiting_mask = w, sync_mask = pm, syncing = a, intowner = ow,
      hicpu = int (length fs), regs = (\<lambda>i. if i < length fs then i + 1 else 0)\<rparr>"
  by (simp add: sync_machine_def)

text \<open>
  C1: \<^verbatim>\<open>Obtain_Interrupt_Lock\<close> called by a processor (\<open>rp\<close> is not \<^verbatim>\<open>NULL\<close>, \<open>h\<close> is the
  \<^verbatim>\<open>REGS\<close> of its host). Before it blocks in \<^verbatim>\<open>obtain_lock\<close> it sets \<^verbatim>\<open>intwait\<close> on the
  host and changes nothing else. With the lock, while \<^verbatim>\<open>syncing\<close> is set, it takes its
  own bit out of \<^verbatim>\<open>sync_mask\<close>, signals \<^verbatim>\<open>sync_cond\<close> exactly when the mask is then empty,
  and waits on \<^verbatim>\<open>sync_bc_cond\<close>, with \<^verbatim>\<open>syncing\<close>, \<^verbatim>\<open>intowner\<close> and the \<^verbatim>\<open>REGS\<close> as they
  were. Once \<^verbatim>\<open>syncing\<close> is clear it clears \<^verbatim>\<open>intwait\<close>, makes its own \<^verbatim>\<open>cpuad\<close> the
  \<^verbatim>\<open>intowner\<close> and returns, without an event and without touching \<^verbatim>\<open>sync_mask\<close>.
\<close>

theorem Obtain_Interrupt_Lock_joins_barrier:
  assumes "rp \<noteq> 0" and "deref m rp = Inr r" and "deref m (hostregs r) = Inr h"
  shows "(\<exists>m'. Obtain_Interrupt_Lock rp m = Inr (Blocked, m', [Obtain_lock])
            \<and> storage m' = (storage m)(hostregs r \<mapsto> h\<lparr>intwait := True\<rparr>)
            \<and> sysblk m' = sysblk m)
       \<and> (syncing (sysblk m) \<longrightarrow>
            (\<exists>m'. Obtain_Interrupt_Lock_locked rp m =
                     Inr (Blocked, m',
                          (if sync_mask (sysblk m') = 0 then [Signal_condition Sync_cond] else [])
                            @ [Wait_condition Sync_bc_cond])
               \<and> sync_mask (sysblk m') = sync_mask (sysblk m) AND NOT (cpubit h)
               \<and> (\<forall>j. bit (sync_mask (sysblk m')) j
                       \<longleftrightarrow> bit (sync_mask (sysblk m)) j \<and> \<not> bit (cpubit h) j)
               \<and> syncing (sysblk m')
               \<and> intowner (sysblk m') = intowner (sysblk m)
               \<and> storage m' = storage m))
       \<and> (\<not> syncing (sysblk m) \<longrightarrow>
            (\<exists>m'. Obtain_Interrupt_Lock_locked rp m = Inr (Returned, m', [])
               \<and> storage m' = (storage m)(hostregs r \<mapsto> h\<lparr>intwait := False\<rparr>)
               \<and> intowner (sysblk m') = LOCK_OWNER_CPU (cpuad h)
               \<and> sync_mask (sysblk m') = sync_mask (sysblk m)
               \<and> \<not> syncing (sysblk m')))"
proof (intro conjI impI)
  show "\<exists>m'. Obtain_Interrupt_Lock rp m = Inr (Blocked, m', [Obtain_lock])
            \<and> storage m' = (storage m)(hostregs r \<mapsto> h\<lparr>intwait := True\<rparr>)
            \<and> sysblk m' = sysblk m"
    by (simp add: Obtain_Interrupt_Lock_def assms)
next
  assume "syncing (sysblk m)"
  then show "\<exists>m'. Obtain_Interrupt_Lock_locked rp m =
                     Inr (Blocked, m',
                          (if sync_mask (sysblk m') = 0 then [Signal_condition Sync_cond] else [])
                            @ [Wait_condition Sync_bc_cond])
               \<and> sync_mask (sysblk m') = sync_mask (sysblk m) AND NOT (cpubit h)
               \<and> (\<forall>j. bit (sync_mask (sysblk m')) j
                       \<longleftrightarrow> bit (sync_mask (sysblk m)) j \<and> \<not> bit (cpubit h) j)
               \<and> syncing (sysblk m')
               \<and> intowner (sysblk m') = intowner (sysblk m)
               \<and> storage m' = storage m"
    by (auto simp: Obtain_Interrupt_Lock_locked_def assms Let_def bit_and_iff bit_not_iff
             dest: bit_imp_le_length)
next
  assume "\<not> syncing (sysblk m)"
  then show "\<exists>m'. Obtain_Interrupt_Lock_locked rp m = Inr (Returned, m', [])
               \<and> storage m' = (storage m)(hostregs r \<mapsto> h\<lparr>intwait := False\<rparr>)
               \<and> intowner (sysblk m') = LOCK_OWNER_CPU (cpuad h)
               \<and> sync_mask (sysblk m') = sync_mask (sysblk m)
               \<and> \<not> syncing (sysblk m')"
    by (simp add: Obtain_Interrupt_Lock_locked_def assms)
qed

text \<open>
  The instance of C1 for processor 1 of three (address 2): entering; giving up its bit
  with another bit still pending (no signal); giving up the last pending bit (signal);
  taking the lock once the synchronization is over.
\<close>

theorem Obtain_Interrupt_Lock_joins_barrier_witness:
  "(\<exists>m'. Obtain_Interrupt_Lock 2
            (sync_machine 7 0 6 True LOCK_OWNER_NONE
               [(False, False), (False, False), (False, False)] :: 8 word machine)
          = Inr (Blocked, m', [Obtain_lock])
        \<and> map_option intwait (storage m' 2) = Some True)
   \<and> (\<exists>m'. Obtain_Interrupt_Lock_locked 2
            (sync_machine 7 0 6 True LOCK_OWNER_NONE
               [(False, False), (True, False), (False, False)] :: 8 word machine)
          = Inr (Blocked, m', [Wait_condition Sync_bc_cond])
        \<and> sync_mask (sysblk m') = 4)
   \<and> (\<exists>m'. Obtain_Interrupt_Lock_locked 2
            (sync_machine 7 0 2 True LOCK_OWNER_NONE
               [(False, False), (True, False), (False, False)] :: 8 word machine)
          = Inr (Blocked, m', [Signal_condition Sync_cond, Wait_condition Sync_bc_cond])
        \<and> sync_mask (sysblk m') = 0)
   \<and> (\<exists>m'. Obtain_Interrupt_Lock_locked 2
            (sync_machine 7 0 0 False LOCK_OWNER_NONE
               [(False, False), (True, False), (False, False)] :: 8 word machine)
          = Inr (Returned, m', [])
        \<and> intowner (sysblk m') = LOCK_OWNER_CPU 1
        \<and> map_option intwait (storage m' 2) = Some False)"
proof -
  let ?fs0 = "[(False, False), (False, False), (False, False)]"
  let ?fs1 = "[(False, False), (True, False), (False, False)]"
  have nz: "(2 :: regs_ptr) \<noteq> 0"
    by simp
  have self: "deref (sync_machine 7 0 pm a LOCK_OWNER_NONE fs :: 8 word machine) 2
                = Inr (sync_cpu fs 1)"
    if "length fs = 3" for pm a fs
    using that by (simp add: deref_sync_machine)
  have host: "deref (sync_machine 7 0 pm a LOCK_OWNER_NONE fs :: 8 word machine)
                (hostregs (sync_cpu fs 1 :: 8 word REGS)) = Inr (sync_cpu fs 1)"
    if "length fs = 3" for pm a fs
    using that by (simp add: sync_cpu_fields deref_sync_machine)
  have enter: "\<exists>m'. Obtain_Interrupt_Lock 2
            (sync_machine 7 0 6 True LOCK_OWNER_NONE ?fs0 :: 8 word machine)
          = Inr (Blocked, m', [Obtain_lock])
        \<and> map_option intwait (storage m' 2) = Some True"
    using Obtain_Interrupt_Lock_joins_barrier [OF nz self host, of ?fs0 6 True]
    by (auto simp: sync_cpu_fields)
  have wait: "\<exists>m'. Obtain_Interrupt_Lock_locked 2
            (sync_machine 7 0 6 True LOCK_OWNER_NONE ?fs1 :: 8 word machine)
          = Inr (Blocked, m', [Wait_condition Sync_bc_cond])
        \<and> sync_mask (sysblk m') = 4"
  proof -
    let ?m = "sync_machine 7 0 6 True LOCK_OWNER_NONE ?fs1 :: 8 word machine"
    have "syncing (sysblk ?m)"
      by (simp add: sync_machine_sysblk)
    then obtain m' where
      r: "Obtain_Interrupt_Lock_locked 2 ?m =
            Inr (Blocked, m',
                 (if sync_mask (sysblk m') = 0 then [Signal_condition Sync_cond] else [])
                   @ [Wait_condition Sync_bc_cond])"
      and sm: "sync_mask (sysblk m')
                 = sync_mask (sysblk ?m) AND NOT (cpubit (sync_cpu ?fs1 1 :: 8 word REGS))"
      using Obtain_Interrupt_Lock_joins_barrier [OF nz self host, of ?fs1 6 True] by auto
    have "sync_mask (sysblk m') = 4"
      using sm by (simp add: sync_machine_sysblk sync_cpu_fields CPU_BIT_def)
    then show ?thesis
      using r by simp
  qed
  have signal: "\<exists>m'. Obtain_Interrupt_Lock_locked 2
            (sync_machine 7 0 2 True LOCK_OWNER_NONE ?fs1 :: 8 word machine)
          = Inr (Blocked, m', [Signal_condition Sync_cond, Wait_condition Sync_bc_cond])
        \<and> sync_mask (sysblk m') = 0"
  proof -
    let ?m = "sync_machine 7 0 2 True LOCK_OWNER_NONE ?fs1 :: 8 word machine"
    have "syncing (sysblk ?m)"
      by (simp add: sync_machine_sysblk)
    then obtain m' where
      r: "Obtain_Interrupt_Lock_locked 2 ?m =
            Inr (Blocked, m',
                 (if sync_mask (sysblk m') = 0 then [Signal_condition Sync_cond] else [])
                   @ [Wait_condition Sync_bc_cond])"
      and sm: "sync_mask (sysblk m')
                 = sync_mask (sysblk ?m) AND NOT (cpubit (sync_cpu ?fs1 1 :: 8 word REGS))"
      using Obtain_Interrupt_Lock_joins_barrier [OF nz self host, of ?fs1 2 True] by auto
    have "sync_mask (sysblk m') = 0"
      using sm by (simp add: sync_machine_sysblk sync_cpu_fields CPU_BIT_def)
    then show ?thesis
      using r by simp
  qed
  have own: "\<exists>m'. Obtain_Interrupt_Lock_locked 2
            (sync_machine 7 0 0 False LOCK_OWNER_NONE ?fs1 :: 8 word machine)
          = Inr (Returned, m', [])
        \<and> intowner (sysblk m') = LOCK_OWNER_CPU 1
        \<and> map_option intwait (storage m' 2) = Some False"
  proof -
    let ?m = "sync_machine 7 0 0 False LOCK_OWNER_NONE ?fs1 :: 8 word machine"
    have "\<not> syncing (sysblk ?m)"
      by (simp add: sync_machine_sysblk)
    then obtain m' where
      r: "Obtain_Interrupt_Lock_locked 2 ?m = Inr (Returned, m', [])"
      and st: "storage m' = (storage ?m)(hostregs (sync_cpu ?fs1 1 :: 8 word REGS)
                 \<mapsto> (sync_cpu ?fs1 1)\<lparr>intwait := False\<rparr>)"
      and ow: "intowner (sysblk m') = LOCK_OWNER_CPU (cpuad (sync_cpu ?fs1 1 :: 8 word REGS))"
      using Obtain_Interrupt_Lock_joins_barrier [OF nz self host, of ?fs1 0 False] by auto
    have "intowner (sysblk m') = LOCK_OWNER_CPU 1"
      using ow by (simp add: sync_cpu_fields)
    moreover have "map_option intwait (storage m' 2) = Some False"
      by (simp add: st sync_cpu_fields)
    ultimately show ?thesis
      using r by simp
  qed
  show ?thesis
    using enter wait signal own by (intro conjI)
qed

text \<open>
  C7, as amended: \<^verbatim>\<open>Release_Interrupt_Lock\<close> checks nothing. Whoever calls it and
  whatever \<^verbatim>\<open>intowner\<close> is (none, another thread, another processor), it sets \<^verbatim>\<open>intowner\<close>
  to \<^verbatim>\<open>LOCK_OWNER_NONE\<close>, calls \<^verbatim>\<open>release_lock\<close> and returns.
\<close>

theorem Release_Interrupt_Lock_unchecked:
  "Release_Interrupt_Lock rp (m\<lparr>sysblk := (sysblk m)\<lparr>intowner := owner\<rparr>\<rparr>)
     = Inr (Returned, m\<lparr>sysblk := (sysblk m)\<lparr>intowner := LOCK_OWNER_NONE\<rparr>\<rparr>, [Release_lock])"
  by (simp add: Release_Interrupt_Lock_def)

text \<open>
  C7 as stated fails: processor 1 (address 2) releases the lock while processor 0 owns
  it, and again while nobody owns it; both calls return normally, with the same event
  as a release by the owner, and the first one wipes the ownership of processor 0.
\<close>

theorem Release_Interrupt_Lock_not_owner_counterexample:
  "Release_Interrupt_Lock 2
     (sync_machine 3 0 0 False (LOCK_OWNER_CPU 0) [(False, False), (False, False)]
      :: 8 word machine)
   = Inr (Returned,
          sync_machine 3 0 0 False LOCK_OWNER_NONE [(False, False), (False, False)],
          [Release_lock])
   \<and> Release_Interrupt_Lock 2
     (sync_machine 3 0 0 False LOCK_OWNER_NONE [(False, False), (False, False)]
      :: 8 word machine)
   = Inr (Returned,
          sync_machine 3 0 0 False LOCK_OWNER_NONE [(False, False), (False, False)],
          [Release_lock])"
  by (simp add: Release_Interrupt_Lock_def sync_machine_def)

section \<open>The invariant of the synchronization state\<close>

lemma wakeup_cpu_machine: "wakeup_cpu p m = Inr (m', evs) \<Longrightarrow> m' = m"
  by (auto simp: wakeup_cpu_def split: sum.splits)

lemma wakeup_cpu_mask_machine: "wakeup_cpu_mask msk m = Inr (m', evs) \<Longrightarrow> m' = m"
  by (auto simp: wakeup_cpu_mask_def split: if_splits sum.splits option.splits
           dest: wakeup_cpu_machine)

lemma wakeup_cpus_mask_loop_machine:
  "wakeup_cpus_mask_loop msk i m evs = Inr (m', evs') \<Longrightarrow> m' = m"
proof (induction msk i m evs rule: wakeup_cpus_mask_loop.induct)
  case (1 msk i m evs)
  show ?case
  proof (cases "msk = 0")
    case True
    then show ?thesis
      using "1.prems" by (subst (asm) wakeup_cpus_mask_loop.simps) simp
  next
    case False
    show ?thesis
    proof (cases "msk AND 1 \<noteq> 0")
      case True
      then obtain m1 ev where w: "wakeup_cpu (regs (sysblk m) i) m = Inr (m1, ev)"
        and r: "wakeup_cpus_mask_loop (drop_bit 1 msk) (i + 1) m1 (evs @ ev) = Inr (m', evs')"
        using "1.prems" False
        by (subst (asm) wakeup_cpus_mask_loop.simps) (auto split: sum.splits)
      have "m1 = m"
        using w by (rule wakeup_cpu_machine)
      moreover have "m' = m1"
        using "1.IH"(1) [OF False True w refl r] .
      ultimately show ?thesis
        by simp
    next
      case nb: False
      then have "wakeup_cpus_mask_loop (drop_bit 1 msk) (i + 1) m evs = Inr (m', evs')"
        using "1.prems" False
        by (subst (asm) wakeup_cpus_mask_loop.simps) simp
      then show ?thesis
        using "1.IH"(2) [OF False nb] by simp
    qed
  qed
qed

lemma synchronize_cpus_invariant:
  "synchronize_cpus AT_SYNCPOINT SIE_MODE rp m = Inr (st, m', evs) \<Longrightarrow>
   sync_invariant m \<Longrightarrow> sync_invariant m'"
  by (auto simp: synchronize_cpus_def sync_invariant_def Let_def
           split: sum.splits if_splits prod.splits)

lemma Obtain_Interrupt_Lock_invariant:
  "Obtain_Interrupt_Lock rp m = Inr (st, m', evs) \<Longrightarrow> sync_invariant m \<Longrightarrow> sync_invariant m'"
  by (auto simp: Obtain_Interrupt_Lock_def sync_invariant_def split: sum.splits if_splits)

lemma Obtain_Interrupt_Lock_locked_invariant:
  "Obtain_Interrupt_Lock_locked rp m = Inr (st, m', evs) \<Longrightarrow>
   sync_invariant m \<Longrightarrow> sync_invariant m'"
  by (auto simp: Obtain_Interrupt_Lock_locked_def sync_invariant_def Let_def
           split: sum.splits if_splits)

lemma Release_Interrupt_Lock_invariant:
  "Release_Interrupt_Lock rp m = Inr (st, m', evs) \<Longrightarrow> sync_invariant m \<Longrightarrow> sync_invariant m'"
  by (auto simp: Release_Interrupt_Lock_def sync_invariant_def)

text \<open>
  Every piece of every operation but one keeps the invariant: \<^verbatim>\<open>synchronize_cpus\<close> up to
  its wait or return, \<^verbatim>\<open>Obtain_Interrupt_Lock\<close> before and after \<^verbatim>\<open>obtain_lock\<close> and after
  each wait, \<^verbatim>\<open>Release_Interrupt_Lock\<close>, and the three wake operations. The piece left
  out is the one of \<^verbatim>\<open>synchronize_cpus\<close> that follows its wait.
\<close>

lemma sync_invariant_kept_elsewhere:
  assumes "sync_invariant m"
  shows "(\<forall>st m' evs. synchronize_cpus AT_SYNCPOINT SIE_MODE rp m = Inr (st, m', evs)
            \<longrightarrow> sync_invariant m')
       \<and> (\<forall>st m' evs. Obtain_Interrupt_Lock rp m = Inr (st, m', evs) \<longrightarrow> sync_invariant m')
       \<and> (\<forall>st m' evs. Obtain_Interrupt_Lock_locked rp m = Inr (st, m', evs)
            \<longrightarrow> sync_invariant m')
       \<and> (\<forall>st m' evs. Release_Interrupt_Lock rp m = Inr (st, m', evs) \<longrightarrow> sync_invariant m')
       \<and> (\<forall>m' evs. wakeup_cpu rp m = Inr (m', evs) \<longrightarrow> sync_invariant m')
       \<and> (\<forall>m' evs. wakeup_cpu_mask msk m = Inr (m', evs) \<longrightarrow> sync_invariant m')
       \<and> (\<forall>m' evs. wakeup_cpus_mask msk m = Inr (m', evs) \<longrightarrow> sync_invariant m')"
proof (intro conjI allI impI)
  fix st m' evs
  show "sync_invariant m'" if "synchronize_cpus AT_SYNCPOINT SIE_MODE rp m = Inr (st, m', evs)"
    using that assms by (rule synchronize_cpus_invariant)
  show "sync_invariant m'" if "Obtain_Interrupt_Lock rp m = Inr (st, m', evs)"
    using that assms by (rule Obtain_Interrupt_Lock_invariant)
  show "sync_invariant m'" if "Obtain_Interrupt_Lock_locked rp m = Inr (st, m', evs)"
    using that assms by (rule Obtain_Interrupt_Lock_locked_invariant)
  show "sync_invariant m'" if "Release_Interrupt_Lock rp m = Inr (st, m', evs)"
    using that assms by (rule Release_Interrupt_Lock_invariant)
  show "sync_invariant m'" if "wakeup_cpu rp m = Inr (m', evs)"
    using wakeup_cpu_machine [OF that] assms by simp
  show "sync_invariant m'" if "wakeup_cpu_mask msk m = Inr (m', evs)"
    using wakeup_cpu_mask_machine [OF that] assms by simp
  show "sync_invariant m'" if "wakeup_cpus_mask msk m = Inr (m', evs)"
    using wakeup_cpus_mask_loop_machine [OF that [unfolded wakeup_cpus_mask_def]] assms by simp
qed

text \<open>
  C3: the code at an input where the invariant is lost. Processor 0 waits in
  \<^verbatim>\<open>synchronize_cpus\<close> for the processors 1 and 2 (\<^verbatim>\<open>sync_mask\<close> is \<open>6\<close>). Processor 1
  obtains the interrupt lock: it takes its bit out of \<^verbatim>\<open>sync_mask\<close>, which is now \<open>4\<close>,
  does not signal \<^verbatim>\<open>sync_cond\<close> and waits. If the wait of processor 0 returns in this
  state, the code of \<^verbatim>\<open>synchronize_cpus\<close> that follows the wait clears \<^verbatim>\<open>syncing\<close> without
  looking at \<^verbatim>\<open>sync_mask\<close>: the bit of processor 2 stays in \<^verbatim>\<open>sync_mask\<close> with \<^verbatim>\<open>syncing\<close>
  clear. The invariant holds before that piece and not after it.
\<close>

theorem synchronize_cpus_wake_keeps_pending_mask:
  "Obtain_Interrupt_Lock_locked 2
     (sync_machine 7 0 6 True LOCK_OWNER_NONE [(False, False), (True, False), (False, False)]
      :: 8 word machine)
   = Inr (Blocked,
          sync_machine 7 0 4 True LOCK_OWNER_NONE
            [(False, False), (True, False), (False, False)],
          [Wait_condition Sync_bc_cond])
   \<and> sync_invariant
       (sync_machine 7 0 4 True LOCK_OWNER_NONE [(False, False), (True, False), (False, False)]
        :: 8 word machine)
   \<and> synchronize_cpus_wake 1
       (sync_machine 7 0 4 True LOCK_OWNER_NONE [(False, False), (True, False), (False, False)]
        :: 8 word machine)
     = Inr (Returned,
            sync_machine 7 0 4 False (LOCK_OWNER_CPU 0)
              [(False, False), (True, False), (False, False)],
            [Broadcast_condition Sync_bc_cond])
   \<and> \<not> sync_invariant
       (sync_machine 7 0 4 False (LOCK_OWNER_CPU 0) [(False, False), (True, False), (False, False)]
        :: 8 word machine)"
proof -
  let ?fs = "[(False, False), (True, False), (False, False)]"
  let ?m0 = "sync_machine 7 0 6 True LOCK_OWNER_NONE ?fs :: 8 word machine"
  let ?m1 = "sync_machine 7 0 4 True LOCK_OWNER_NONE ?fs :: 8 word machine"
  let ?m2 = "sync_machine 7 0 4 False (LOCK_OWNER_CPU 0) ?fs :: 8 word machine"
  have lock: "Obtain_Interrupt_Lock_locked 2 ?m0 = Inr (Blocked, ?m1, [Wait_condition Sync_bc_cond])"
    by (simp add: Obtain_Interrupt_Lock_locked_def deref_sync_machine sync_cpu_fields
          sync_machine_sysblk CPU_BIT_def)
       (simp add: sync_machine_def)
  have wake: "synchronize_cpus_wake 1 ?m1
                = Inr (Returned, ?m2, [Broadcast_condition Sync_bc_cond])"
    by (simp add: synchronize_cpus_wake_def deref_sync_machine sync_cpu_fields
          sync_machine_sysblk)
       (simp add: sync_machine_def)
  have before: "sync_invariant ?m1"
    by (simp add: sync_invariant_def sync_machine_sysblk)
  have after: "\<not> sync_invariant ?m2"
    by (simp add: sync_invariant_def sync_machine_sysblk)
  show ?thesis
    using lock wake before after by (intro conjI)
qed

end
